theory Spec2Isabelle
  imports
    Complex_Main
    "HOL-Library.Product_Lexorder"
    "HOL-Library.Multiset"
    "HOL-Library.Sublist"
begin

section \<open>Types (src/types/index.ts)\<close>

datatype Genre = Action | Comedy | Drama | Fantasy | Horror | Romance | SciFi

datatype ContentType = CT_movie | CT_tvshow

datatype PaginationType = PT_offset | PT_cursor

text \<open>A \<open>Date\<close> is its time value, milliseconds since the epoch. A MongoDB \<open>ObjectId\<close>
  is the number its twelve bytes spell, which is the order MongoDB compares ids by.\<close>

type_synonym instant = int
type_synonym ObjectId = nat

text \<open>What \<open>JSON.parse\<close> can return.\<close>

datatype json =
    JNull
  | JBool bool
  | JNum rat
  | JStr string
  | JArr "json list"
  | JObj "(string \<times> json) list"

text \<open>JavaScript truthiness of a parsed value, as \<open>if (v)\<close> and \<open>a && b\<close> test it.\<close>

fun truthy :: "json \<Rightarrow> bool" where
  "truthy JNull = False"
| "truthy (JBool b) = b"
| "truthy (JNum n) = (n \<noteq> 0)"
| "truthy (JStr s) = (s \<noteq> [])"
| "truthy (JArr _) = True"
| "truthy (JObj _) = True"

text \<open>Property access \<open>v.name\<close> (or \<open>v?.name\<close>): \<open>None\<close> is \<open>undefined\<close>. Only an
  object parsed from JSON has own properties called \<open>added_at\<close> or \<open>id\<close>.\<close>

fun get_field :: "json \<Rightarrow> string \<Rightarrow> json option" where
  "get_field (JObj kvs) name = map_of kvs name"
| "get_field _ name = None"

text \<open>Truthiness of an optional string parameter (\<open>cursor?: string\<close>): \<open>undefined\<close> and
  the empty string are falsy.\<close>

fun truthy_str :: "string option \<Rightarrow> bool" where
  "truthy_str None = False"
| "truthy_str (Some s) = (s \<noteq> [])"

text \<open>\<open>n || d\<close> on an optional number: \<open>undefined\<close> and 0 are falsy.\<close>

definition orDefault :: "nat option \<Rightarrow> nat \<Rightarrow> nat" where
  "orDefault v d = (case v of None \<Rightarrow> d | Some n \<Rightarrow> if n = 0 then d else n)"

section \<open>Library functions the service calls\<close>

text \<open>
  The service calls Node's \<open>Buffer\<close>, \<open>JSON\<close> and \<open>Date\<close> and Mongoose's ObjectId cast.
  They are not code of the repository, so they are parameters of the model:
  \<^item> \<open>Buffer_from_base64 s\<close> is \<open>Buffer.from(s, 'base64').toString('utf-8')\<close>; \<open>None\<close> stands
    for a throw (Node's decoder is lenient and does not throw on a string, which the model
    allows but does not rely on);
  \<^item> \<open>Buffer_to_base64 s\<close> is \<open>Buffer.from(s).toString('base64')\<close>;
  \<^item> \<open>JSON_parse\<close> returns \<open>None\<close> where \<open>JSON.parse\<close> throws a SyntaxError;
  \<^item> \<open>new_Date v\<close> is the time value of \<open>new Date(v)\<close>, \<open>None\<close> for an Invalid Date (NaN);
  \<^item> \<open>toISOString t\<close> is \<open>new Date(t).toISOString()\<close>;
  \<^item> \<open>ObjectId_toString\<close> is \<open>String(_id)\<close>, and \<open>castObjectId v\<close> is Mongoose's cast of a
    query value for the \<open>_id\<close> path, \<open>None\<close> where it throws a CastError.
\<close>

record platform =
  Buffer_from_base64 :: "string \<Rightarrow> string option"
  Buffer_to_base64 :: "string \<Rightarrow> string"
  JSON_parse :: "string \<Rightarrow> json option"
  JSON_stringify :: "json \<Rightarrow> string"
  new_Date :: "json \<Rightarrow> instant option"
  toISOString :: "instant \<Rightarrow> string"
  ObjectId_toString :: "ObjectId \<Rightarrow> string"
  castObjectId :: "json \<Rightarrow> ObjectId option"

section \<open>Errors (middleware/error-handler.ts) and messages (constants)\<close>

datatype error =
    NotFoundError string
  | ConflictError string
  | BadRequestError string
  | CastError
  | MongoDuplicateKey

definition INVALID_CURSOR :: string where
  "INVALID_CURSOR = ''Invalid cursor''"

definition INVALID_CURSOR_FORMAT :: string where
  "INVALID_CURSOR_FORMAT = ''Invalid cursor format''"

definition ITEM_ALREADY_IN_LIST :: string where
  "ITEM_ALREADY_IN_LIST = ''Item already exists in list''"

definition ITEM_NOT_IN_LIST :: string where
  "ITEM_NOT_IN_LIST = ''Item not in list''"

definition MOVIE_NOT_FOUND :: string where
  "MOVIE_NOT_FOUND = ''Movie not found''"

definition TV_SHOW_NOT_FOUND :: string where
  "TV_SHOW_NOT_FOUND = ''TV Show not found''"

definition INVALID_ID_FORMAT :: string where
  "INVALID_ID_FORMAT = ''Invalid ID format''"

text \<open>\<open>errorHandler\<close>: the HTTP status and message an error leaves the API with. An
  \<open>ApiError\<close> carries its own status; a MongoServerError with code 11000 becomes 409
  with the duplicate message; a CastError becomes 400.\<close>

fun errorHandler :: "error \<Rightarrow> nat \<times> string" where
  "errorHandler (NotFoundError m) = (404, m)"
| "errorHandler (ConflictError m) = (409, m)"
| "errorHandler (BadRequestError m) = (400, m)"
| "errorHandler MongoDuplicateKey = (409, ITEM_ALREADY_IN_LIST)"
| "errorHandler CastError = (400, INVALID_ID_FORMAT)"

section \<open>Documents and results\<close>

text \<open>The response shape \<open>ListItemData\<close> (services/my-list-service.ts); \<open>item_id\<close> is its
  field \<open>id\<close>.\<close>

record ListItemData =
  item_id :: string
  contentId :: string
  contentType :: ContentType
  title :: string
  description :: string
  genres :: "Genre list"
  releaseDate :: instant
  director :: "string option"
  actors :: "string list"
  addedAt :: instant

text \<open>A stored \<open>MyListItem\<close> document (models/my-list-item.ts); \<open>doc_id\<close> is its \<open>_id\<close>.\<close>

record MyListItem =
  doc_id :: ObjectId
  user_id :: string
  content_id :: string
  content_type :: ContentType
  added_at :: instant
  title :: string
  description :: string
  genres :: "Genre list"
  release_date :: instant
  director :: "string option"
  actors :: "string list"

datatype Pagination =
    OffsetPagination (page: nat) (limit: nat) (totalItems: nat) (totalPages: nat)
      (hasNextPage: bool) (hasPrevPage: bool)
  | CursorPagination (limit: nat) (nextCursor: "string option") (prevCursor: "string option")
      (hasNextPage: bool) (hasPrevPage: bool)

record ListResult =
  items :: "ListItemData list"
  pagination :: Pagination

record PaginatedListResult = ListResult +
  cacheHit :: bool

definition mapToListItemData :: "platform \<Rightarrow> MyListItem \<Rightarrow> ListItemData" where
  "mapToListItemData p item =
     \<lparr> item_id = ObjectId_toString p (doc_id item),
       contentId = content_id item,
       contentType = content_type item,
       ListItemData.title = MyListItem.title item,
       ListItemData.description = MyListItem.description item,
       ListItemData.genres = MyListItem.genres item,
       releaseDate = release_date item,
       ListItemData.director = MyListItem.director item,
       ListItemData.actors = MyListItem.actors item,
       addedAt = added_at item \<rparr>"

section \<open>Queries on the MyListItem collection\<close>

text \<open>
  The collection is the list of its documents in storage order. \<open>.sort({ added_at: -1 })\<close>
  orders by \<open>added_at\<close> descending; MongoDB leaves the order of documents with equal sort
  keys open, and the model returns them in storage order. \<open>.sort({ added_at: -1, _id: -1 })\<close>
  breaks ties by \<open>_id\<close> descending.
\<close>

definition sort_added_at_desc :: "MyListItem list \<Rightarrow> MyListItem list" where
  "sort_added_at_desc ds = sort_key (\<lambda>d. - added_at d) ds"

definition canonical_key :: "MyListItem \<Rightarrow> int \<times> int" where
  "canonical_key d = (- added_at d, - int (doc_id d))"

definition sort_added_at_id_desc :: "MyListItem list \<Rightarrow> MyListItem list" where
  "sort_added_at_id_desc ds = sort_key canonical_key ds"

text \<open>The filter of the cursor query: \<open>{ user_id }\<close>, with \<open>added_at: { $lt }\<close> for a cursor
  without id, or \<open>$or: [{ added_at: { $lt } }, { added_at, _id: { $lt } }]\<close>.\<close>

datatype CursorQuery =
    ByUser string
  | ByUserBefore string instant
  | ByUserBeforeTie string instant ObjectId

fun matches :: "CursorQuery \<Rightarrow> MyListItem \<Rightarrow> bool" where
  "matches (ByUser u) d = (user_id d = u)"
| "matches (ByUserBefore u t) d = (user_id d = u \<and> added_at d < t)"
| "matches (ByUserBeforeTie u t i) d =
     (user_id d = u \<and> (added_at d < t \<or> (added_at d = t \<and> doc_id d < i)))"

section \<open>Cursor codec (services/my-list-service.ts, lines 244-258 and 296-304)\<close>

text \<open>The object whose JSON text the next cursor is.\<close>

definition cursorObject :: "platform \<Rightarrow> MyListItem \<Rightarrow> json" where
  "cursorObject p lastItem =
     JObj [(''added_at'', JStr (toISOString p (added_at lastItem))),
           (''id'', JStr (ObjectId_toString p (doc_id lastItem)))]"

definition encodeCursor :: "platform \<Rightarrow> MyListItem \<Rightarrow> string" where
  "encodeCursor p lastItem = Buffer_to_base64 p (JSON_stringify p (cursorObject p lastItem))"

text \<open>
  Decoding returns the cursor date and the \<open>id\<close> property of the parsed cursor. Inside the
  \<open>try\<close>, a missing or falsy \<open>added_at\<close> leaves \<open>cursorDate\<close> null and an unparsable one makes
  it an Invalid Date; both throw \<open>BadRequestError(INVALID_CURSOR)\<close>, which the bare \<open>catch\<close>
  replaces, like every other throw of the block, by \<open>BadRequestError(INVALID_CURSOR_FORMAT)\<close>.
\<close>

definition decodeCursor :: "platform \<Rightarrow> string \<Rightarrow> error + instant \<times> json option" where
  "decodeCursor p cursor =
     (case Buffer_from_base64 p cursor of
        None \<Rightarrow> Inl (BadRequestError INVALID_CURSOR_FORMAT)
      | Some text \<Rightarrow>
          (case JSON_parse p text of
             None \<Rightarrow> Inl (BadRequestError INVALID_CURSOR_FORMAT)
           | Some decodedCursor \<Rightarrow>
               (let cursorDate =
                      (case get_field decodedCursor ''added_at'' of
                         None \<Rightarrow> None
                       | Some a \<Rightarrow> if truthy a then new_Date p a else None)
                in case cursorDate of
                     None \<Rightarrow> Inl (BadRequestError INVALID_CURSOR_FORMAT)
                   | Some t \<Rightarrow> Inr (t, get_field decodedCursor ''id''))))"

text \<open>Building the query (lines 260-282). Mongoose casts the \<open>_id\<close> condition when the
  query runs and throws a CastError for a value that is no ObjectId.\<close>

definition buildCursorQuery ::
  "platform \<Rightarrow> string \<Rightarrow> (instant \<times> json option) option \<Rightarrow> error + CursorQuery" where
  "buildCursorQuery p userId decoded =
     (case decoded of
        None \<Rightarrow> Inr (ByUser userId)
      | Some (cursorDate, cursorId) \<Rightarrow>
          (case cursorId of
             None \<Rightarrow> Inr (ByUserBefore userId cursorDate)
           | Some v \<Rightarrow>
               if truthy v then
                 (case castObjectId p v of
                    None \<Rightarrow> Inl CastError
                  | Some i \<Rightarrow> Inr (ByUserBeforeTie userId cursorDate i))
               else Inr (ByUserBefore userId cursorDate)))"

section \<open>MyListService.getListWithCursorPagination\<close>

definition getListWithCursorPagination ::
  "platform \<Rightarrow> MyListItem list \<Rightarrow> string \<Rightarrow> string option \<Rightarrow> nat \<Rightarrow> error + ListResult" where
  "getListWithCursorPagination p docs userId cursor lmt =
     (case (case cursor of
              None \<Rightarrow> Inr None
            | Some c \<Rightarrow> if c = [] then Inr None else map_sum (\<lambda>e. e) Some (decodeCursor p c)) of
        Inl e \<Rightarrow> Inl e
      | Inr decoded \<Rightarrow>
          (case buildCursorQuery p userId decoded of
             Inl e \<Rightarrow> Inl e
           | Inr query \<Rightarrow>
               (let found = take (lmt + 1) (sort_added_at_id_desc (filter (matches query) docs));
                    hasNext = (length found > lmt);
                    resultItems = (if hasNext then take lmt found else found);
                    next = (if hasNext \<and> length resultItems > 0
                            then Some (encodeCursor p (last resultItems)) else None)
                in Inr \<lparr> items = map (mapToListItemData p) resultItems,
                         pagination =
                           CursorPagination lmt next
                             (if truthy_str cursor then cursor else None)
                             hasNext (truthy_str cursor) \<rparr>)))"

text \<open>
  The forward walk of a client (as the tests walk): call with no cursor, then with each
  page's \<open>nextCursor\<close>, until a page reports \<open>hasNextPage = false\<close>. The fuel bounds the
  number of calls; \<open>None\<close> means the walk did not finish within it.
\<close>

fun cursorWalk ::
  "platform \<Rightarrow> MyListItem list \<Rightarrow> string \<Rightarrow> nat \<Rightarrow> nat \<Rightarrow> string option
     \<Rightarrow> (error + ListItemData list) option" where
  "cursorWalk p docs userId lmt 0 cursor = None"
| "cursorWalk p docs userId lmt (Suc fuel) cursor =
     (case getListWithCursorPagination p docs userId cursor lmt of
        Inl e \<Rightarrow> Some (Inl e)
      | Inr r \<Rightarrow>
          if hasNextPage (pagination r) then
            (case cursorWalk p docs userId lmt fuel (nextCursor (pagination r)) of
               None \<Rightarrow> None
             | Some (Inl e) \<Rightarrow> Some (Inl e)
             | Some (Inr rest) \<Rightarrow> Some (Inr (items r @ rest)))
          else Some (Inr (items r)))"

section \<open>MyListService.getListWithOffsetPagination\<close>

text \<open>
  \<open>getList\<close> is the only caller and passes \<open>params.page || 1\<close> and \<open>params.limit || 10\<close>, so
  the page and the limit are at least 1 here: \<open>page - 1\<close> does not go below zero, and
  \<open>Math.ceil(totalItems / limit)\<close> is the rounded-up quotient.
\<close>

definition getListWithOffsetPagination ::
  "platform \<Rightarrow> MyListItem list \<Rightarrow> string \<Rightarrow> nat \<Rightarrow> nat \<Rightarrow> ListResult" where
  "getListWithOffsetPagination p docs userId pg lmt =
     (let skip = (pg - 1) * lmt;
          total = length (filter (\<lambda>d. user_id d = userId) docs);
          found = take lmt (drop skip (sort_added_at_desc (filter (\<lambda>d. user_id d = userId) docs)));
          pages = (total + lmt - 1) div lmt
      in \<lparr> items = map (mapToListItemData p) found,
           pagination = OffsetPagination pg lmt total pages (pg < pages) (pg > 1) \<rparr>)"

section \<open>Cache keys (CacheService)\<close>

text \<open>
  A number in a template literal: the decimal digits of a non-negative integer. This is
  what JavaScript prints for an integer below \<open>10^21\<close>; from there on it prints the exponent
  form (\<open>1e+21\<close>), which \<open>show_nat\<close> does not follow, so the pages and limits of the model
  stand for the integers below \<open>10^21\<close> (the validation admits limits up to 100).
\<close>

definition digit_char :: "nat \<Rightarrow> char" where
  "digit_char n = char_of (48 + n)"

function show_nat :: "nat \<Rightarrow> string" where
  "show_nat n = (if n < 10 then [digit_char n] else show_nat (n div 10) @ [digit_char (n mod 10)])"
  by pat_completeness auto
termination
  by (relation "measure (\<lambda>n. n)") auto

declare show_nat.simps [simp del]

definition getOffsetCacheKey :: "string \<Rightarrow> nat \<Rightarrow> nat \<Rightarrow> string" where
  "getOffsetCacheKey userId pg lmt =
     ''mylist:'' @ userId @ '':offset:page:'' @ show_nat pg @ '':limit:'' @ show_nat lmt"

text \<open>\<open>cursor || 'first'\<close>.\<close>

definition cursorPart :: "string option \<Rightarrow> string" where
  "cursorPart cursor =
     (case cursor of None \<Rightarrow> ''first'' | Some c \<Rightarrow> if c = [] then ''first'' else c)"

definition getCursorCacheKey :: "string \<Rightarrow> string option \<Rightarrow> nat \<Rightarrow> string" where
  "getCursorCacheKey userId cursor lmt =
     ''mylist:'' @ userId @ '':cursor:'' @ cursorPart cursor @ '':limit:'' @ show_nat lmt"

definition getUserCachePattern :: "string \<Rightarrow> string" where
  "getUserCachePattern userId = ''mylist:'' @ userId @ '':*''"

text \<open>\<open>getCacheKey(userId, type, { page, cursor, limit })\<close>, with \<open>params.page || 1\<close> and
  \<open>params.cursor || null\<close>.\<close>

definition getCacheKey ::
  "string \<Rightarrow> PaginationType \<Rightarrow> nat option \<Rightarrow> string option \<Rightarrow> nat \<Rightarrow> string" where
  "getCacheKey userId type pg cursor lmt =
     (case type of
        PT_offset \<Rightarrow>
          getOffsetCacheKey userId (orDefault pg 1) lmt
      | PT_cursor \<Rightarrow>
          getCursorCacheKey userId (if truthy_str cursor then cursor else None) lmt)"

text \<open>The user ids the authentication middleware lets through (middleware/auth.ts):
  \<open>/^[a-zA-Z0-9_-]{1,50}$/\<close>.\<close>

definition user_id_char :: "char \<Rightarrow> bool" where
  "user_id_char c =
     (let n = (of_char c :: nat)
      in (97 \<le> n \<and> n \<le> 122) \<or> (65 \<le> n \<and> n \<le> 90) \<or> (48 \<le> n \<and> n \<le> 57)
         \<or> c = CHR ''_'' \<or> c = CHR ''-'')"

definition valid_user_id :: "string \<Rightarrow> bool" where
  "valid_user_id u = (1 \<le> length u \<and> length u \<le> 50 \<and> list_all user_id_char u)"

section \<open>Redis\<close>

text \<open>
  The cache holds the JSON text of a \<open>ListResult\<close> under each key; the model keeps the
  result itself. Expiry (\<open>SETEX\<close>'s time to live) is not modelled. A command can fail (the
  client is not connected, the server does not answer): \<open>outages\<close> says, for the commands
  to come, which ones throw; once it is used up every command succeeds.
\<close>

record redis =
  kv :: "(string \<times> ListResult) list"
  outages :: "bool list"

definition next_command :: "redis \<Rightarrow> bool \<times> redis" where
  "next_command r =
     (case outages r of
        [] \<Rightarrow> (False, r)
      | down # rest \<Rightarrow> (down, r \<lparr> outages := rest \<rparr>))"

text \<open>Redis matches \<open>SCAN ... MATCH pattern\<close> glob-style: \<open>*\<close>, \<open>?\<close>, \<open>[...]\<close> classes
  (with \<open>^\<close>, ranges and escapes) and \<open>\\<close> escapes.\<close>

fun glob_class :: "string \<Rightarrow> char \<Rightarrow> bool \<Rightarrow> bool \<times> string" where
  "glob_class [] c m = (m, [])"
| "glob_class [x] c m = (if x = CHR '']'' then (m, []) else (m \<or> x = c, []))"
| "glob_class [x, y] c m =
     (if x = CHR 0x5C then (m \<or> y = c, [])
      else if x = CHR '']'' then (m, [y])
      else glob_class [y] c (m \<or> x = c))"
| "glob_class (x # y # z # rest) c m =
     (if x = CHR 0x5C then glob_class (z # rest) c (m \<or> y = c)
      else if x = CHR '']'' then (m, y # z # rest)
      else if y = CHR ''-'' then
        glob_class rest c
          (m \<or> (min (of_char x) (of_char z) \<le> (of_char c :: nat)
                \<and> (of_char c :: nat) \<le> max (of_char x) (of_char z)))
      else glob_class (y # z # rest) c (m \<or> x = c))"

lemma glob_class_length: "length (snd (glob_class xs c m)) \<le> length xs"
  by (induction xs c m rule: glob_class.induct) auto

function glob_match :: "string \<Rightarrow> string \<Rightarrow> bool" where
  "glob_match [] s = (s = [])"
| "glob_match (p # ps) [] = (p = CHR ''*'' \<and> glob_match ps [])"
| "glob_match (p # ps) (c # ss) =
     (if p = CHR ''*'' then glob_match ps (c # ss) \<or> glob_match (p # ps) ss
      else if p = CHR ''?'' then glob_match ps ss
      else if p = CHR ''['' then
        (case ps of
           [] \<Rightarrow> False
         | q # qs \<Rightarrow>
             if q = CHR ''^''
             then \<not> fst (glob_class qs c False) \<and> glob_match (snd (glob_class qs c False)) ss
             else fst (glob_class ps c False) \<and> glob_match (snd (glob_class ps c False)) ss)
      else if p = CHR 0x5C then
        (case ps of
           [] \<Rightarrow> p = c \<and> glob_match [] ss
         | q # qs \<Rightarrow> q = c \<and> glob_match qs ss)
      else p = c \<and> glob_match ps ss)"
  by pat_completeness auto
termination
proof (relation "measure (\<lambda>(p, s). length p + length s)", goal_cases)
  case 1
  then show ?case by simp
next
  case (2 p ps)
  then show ?case by simp
next
  case (3 p ps c ss)
  then show ?case by simp
next
  case (4 p ps c ss)
  then show ?case by simp
next
  case (5 p ps c ss)
  then show ?case by simp
next
  case (6 p ps c ss q qs)
  then show ?case using glob_class_length[of qs c False] by simp
next
  case (7 p ps c ss q qs)
  then show ?case using glob_class_length[of ps c False] by simp
next
  case (8 p ps c ss)
  then show ?case by simp
next
  case (9 p ps c ss q qs)
  then show ?case by simp
next
  case (10 p ps c ss)
  then show ?case by simp
qed

text \<open>The commands the service sends. \<open>None\<close> is a throw.\<close>

definition redis_get :: "redis \<Rightarrow> string \<Rightarrow> ListResult option option \<times> redis" where
  "redis_get r key =
     (case next_command r of
        (True, r') \<Rightarrow> (None, r')
      | (False, r') \<Rightarrow> (Some (map_of (kv r') key), r'))"

definition redis_setex :: "redis \<Rightarrow> string \<Rightarrow> ListResult \<Rightarrow> unit option \<times> redis" where
  "redis_setex r key data =
     (case next_command r of
        (True, r') \<Rightarrow> (None, r')
      | (False, r') \<Rightarrow>
          (Some (), r' \<lparr> kv := (key, data) # filter (\<lambda>e. fst e \<noteq> key) (kv r') \<rparr>))"

definition redis_del :: "redis \<Rightarrow> string list \<Rightarrow> unit option \<times> redis" where
  "redis_del r keys =
     (case next_command r of
        (True, r') \<Rightarrow> (None, r')
      | (False, r') \<Rightarrow> (Some (), r' \<lparr> kv := filter (\<lambda>e. fst e \<notin> set keys) (kv r') \<rparr>))"

text \<open>\<open>SCAN cursor MATCH pattern COUNT count\<close>: one step of an iteration over the keys,
  which looks at the next \<open>COUNT\<close> keys and returns the next cursor, 0 when the iteration
  is complete.\<close>

definition redis_scan ::
  "redis \<Rightarrow> nat \<Rightarrow> string \<Rightarrow> nat \<Rightarrow> (nat \<times> string list) option \<times> redis" where
  "redis_scan r cursor pattern cnt =
     (case next_command r of
        (True, r') \<Rightarrow> (None, r')
      | (False, r') \<Rightarrow>
          (Some (if cursor + cnt < length (kv r') then cursor + cnt else 0,
                 filter (glob_match pattern) (take cnt (drop cursor (map fst (kv r'))))),
           r'))"

section \<open>CacheService\<close>

text \<open>\<open>get\<close> returns \<open>{ data, hit }\<close>: \<open>Some data\<close> is a hit. Its \<open>catch\<close> turns a failed
  command into a miss.\<close>

definition CacheService_get :: "redis \<Rightarrow> string \<Rightarrow> ListResult option \<times> redis" where
  "CacheService_get r key =
     (case redis_get r key of
        (None, r') \<Rightarrow> (None, r')
      | (Some None, r') \<Rightarrow> (None, r')
      | (Some (Some data), r') \<Rightarrow> (Some data, r'))"

text \<open>\<open>set\<close> logs a failed command and returns.\<close>

definition CacheService_set :: "redis \<Rightarrow> string \<Rightarrow> ListResult \<Rightarrow> redis" where
  "CacheService_set r key data = snd (redis_setex r key data)"

text \<open>The \<open>do ... while (cursor !== '0')\<close> loop of \<open>invalidateUserCache\<close>, from a cursor
  with the keys collected so far.\<close>

function scanLoop ::
  "redis \<Rightarrow> string \<Rightarrow> nat \<Rightarrow> string list \<Rightarrow> string list option \<times> redis" where
  "scanLoop r pattern cursor keysToDelete =
     (case redis_scan r cursor pattern 100 of
        (None, r') \<Rightarrow> (None, r')
      | (Some (next, found), r') \<Rightarrow>
          if next = 0 then (Some (keysToDelete @ found), r')
          else scanLoop r' pattern next (keysToDelete @ found))"
  by pat_completeness auto
termination
  by (relation "measure (\<lambda>(r, pattern, cursor, keysToDelete). length (kv r) - cursor)")
     (auto simp: redis_scan_def next_command_def split: list.splits if_splits bool.splits)

declare scanLoop.simps [simp del]

text \<open>The body of the \<open>try\<close> of \<open>invalidateUserCache\<close>: \<open>None\<close> when a command threw.\<close>

definition invalidateUserCache_try :: "redis \<Rightarrow> string \<Rightarrow> unit option \<times> redis" where
  "invalidateUserCache_try r userId =
     (case scanLoop r (getUserCachePattern userId) 0 [] of
        (None, r') \<Rightarrow> (None, r')
      | (Some keysToDelete, r') \<Rightarrow>
          if length keysToDelete > 0 then redis_del r' keysToDelete else (Some (), r'))"

text \<open>The \<open>catch\<close> logs the error; the caller sees a normal return either way.\<close>

definition invalidateUserCache :: "redis \<Rightarrow> string \<Rightarrow> redis" where
  "invalidateUserCache r userId = snd (invalidateUserCache_try r userId)"

section \<open>The store\<close>

record IMovie =
  movie_id :: ObjectId
  title :: string
  description :: string
  genres :: "Genre list"
  releaseDate :: instant
  director :: string
  actors :: "string list"

record IEpisode =
  episodeNumber :: nat
  seasonNumber :: nat
  releaseDate :: instant
  director :: string
  actors :: "string list"

record ITVShow =
  show_id :: ObjectId
  title :: string
  description :: string
  genres :: "Genre list"
  episodes :: "IEpisode list"

text \<open>The collections of the database and the cache.\<close>

record sys =
  myList :: "MyListItem list"
  movies :: "IMovie list"
  tvShows :: "ITVShow list"
  redis :: redis

text \<open>\<open>MyListItem.findOne({ user_id, content_id })\<close>.\<close>

definition findOne :: "MyListItem list \<Rightarrow> string \<Rightarrow> string \<Rightarrow> MyListItem option" where
  "findOne ds userId cId = find (\<lambda>d. user_id d = userId \<and> content_id d = cId) ds"

text \<open>\<open>MyListItem.create\<close>: one atomic insert, which the unique indexes on \<open>_id\<close> and on
  \<open>(user_id, content_id)\<close> reject with the duplicate key error 11000.\<close>

definition create :: "MyListItem list \<Rightarrow> MyListItem \<Rightarrow> error + MyListItem list" where
  "create ds newItem =
     (if list_ex (\<lambda>d. doc_id d = doc_id newItem
                      \<or> (user_id d = user_id newItem \<and> content_id d = content_id newItem)) ds
      then Inl MongoDuplicateKey
      else Inr (ds @ [newItem]))"

text \<open>\<open>MyListItem.deleteOne({ user_id, content_id })\<close>: the deleted count and the
  collection left.\<close>

definition deleteOne :: "MyListItem list \<Rightarrow> string \<Rightarrow> string \<Rightarrow> nat \<times> MyListItem list" where
  "deleteOne ds userId cId =
     (case findOne ds userId cId of
        None \<Rightarrow> (0, ds)
      | Some d \<Rightarrow> (1, remove1 d ds))"

text \<open>\<open>Model.findById(contentId)\<close>: Mongoose casts the string to an ObjectId and throws a
  CastError when it cannot.\<close>

definition Movie_findById :: "platform \<Rightarrow> IMovie list \<Rightarrow> string \<Rightarrow> error + IMovie option" where
  "Movie_findById p ms cId =
     (case castObjectId p (JStr cId) of
        None \<Rightarrow> Inl CastError
      | Some i \<Rightarrow> Inr (find (\<lambda>m. movie_id m = i) ms))"

definition TVShow_findById :: "platform \<Rightarrow> ITVShow list \<Rightarrow> string \<Rightarrow> error + ITVShow option" where
  "TVShow_findById p ts cId =
     (case castObjectId p (JStr cId) of
        None \<Rightarrow> Inl CastError
      | Some i \<Rightarrow> Inr (find (\<lambda>t. show_id t = i) ts))"

section \<open>MyListService\<close>

text \<open>The local \<open>contentData\<close> of \<open>addToList\<close>.\<close>

record ContentData =
  title :: string
  description :: string
  genres :: "Genre list"
  releaseDate :: instant
  director :: "string option"
  actors :: "string list"

text \<open>\<open>[...new Set(xs)]\<close> keeps the first occurrence of each element.\<close>

definition uniqueInOrder :: "'a list \<Rightarrow> 'a list" where
  "uniqueInOrder xs = rev (remdups (rev xs))"

definition fetchContentData ::
  "platform \<Rightarrow> instant \<Rightarrow> sys \<Rightarrow> string \<Rightarrow> ContentType \<Rightarrow> error + ContentData" where
  "fetchContentData p lookupTime s cId cType =
     (case cType of
        CT_movie \<Rightarrow>
          (case Movie_findById p (movies s) cId of
             Inl e \<Rightarrow> Inl e
           | Inr None \<Rightarrow> Inl (NotFoundError MOVIE_NOT_FOUND)
           | Inr (Some movie) \<Rightarrow>
               Inr \<lparr> ContentData.title = IMovie.title movie,
                     ContentData.description = IMovie.description movie,
                     ContentData.genres = IMovie.genres movie,
                     ContentData.releaseDate = IMovie.releaseDate movie,
                     ContentData.director = Some (IMovie.director movie),
                     ContentData.actors = IMovie.actors movie \<rparr>)
      | CT_tvshow \<Rightarrow>
          (case TVShow_findById p (tvShows s) cId of
             Inl e \<Rightarrow> Inl e
           | Inr None \<Rightarrow> Inl (NotFoundError TV_SHOW_NOT_FOUND)
           | Inr (Some tvShow) \<Rightarrow>
               (let allActors = uniqueInOrder (concat (map IEpisode.actors (episodes tvShow)))
                in Inr \<lparr> ContentData.title = ITVShow.title tvShow,
                         ContentData.description = ITVShow.description tvShow,
                         ContentData.genres = ITVShow.genres tvShow,
                         ContentData.releaseDate =
                           (case episodes tvShow of
                              [] \<Rightarrow> lookupTime
                            | firstEpisode # _ \<Rightarrow> IEpisode.releaseDate firstEpisode),
                         ContentData.director =
                           (case episodes tvShow of
                              [] \<Rightarrow> None
                            | firstEpisode # _ \<Rightarrow> Some (IEpisode.director firstEpisode)),
                         ContentData.actors = allActors \<rparr>)))"

text \<open>
  \<open>addToList\<close>. The source reads the clock (\<open>new Date()\<close>) twice: \<open>lookupTime\<close> is the
  reading in the content lookup, which becomes the release date of a show without episodes,
  and \<open>now\<close> the reading for \<open>added_at\<close>; \<open>newId\<close> is the ObjectId the driver generates for
  the new document. The state changes only when the insert succeeds. The schema validation
  of the new document is not modelled: its fields are copied from catalogue documents,
  which the same field rules govern.
\<close>

definition addToList ::
  "platform \<Rightarrow> instant \<Rightarrow> instant \<Rightarrow> ObjectId \<Rightarrow> sys \<Rightarrow> string \<Rightarrow> string \<Rightarrow> ContentType
     \<Rightarrow> (error + ListItemData) \<times> sys" where
  "addToList p lookupTime now newId s userId cId cType =
     (case findOne (myList s) userId cId of
        Some existingItem \<Rightarrow> (Inl (ConflictError ITEM_ALREADY_IN_LIST), s)
      | None \<Rightarrow>
          (case fetchContentData p lookupTime s cId cType of
             Inl e \<Rightarrow> (Inl e, s)
           | Inr contentData \<Rightarrow>
               (let newItem =
                      \<lparr> doc_id = newId, user_id = userId, content_id = cId,
                        content_type = cType, added_at = now,
                        MyListItem.title = ContentData.title contentData,
                        MyListItem.description = ContentData.description contentData,
                        MyListItem.genres = ContentData.genres contentData,
                        release_date = ContentData.releaseDate contentData,
                        MyListItem.director = ContentData.director contentData,
                        MyListItem.actors = ContentData.actors contentData \<rparr>
                in case create (myList s) newItem of
                     Inl e \<Rightarrow> (Inl e, s)
                   | Inr ds \<Rightarrow>
                       (Inr (mapToListItemData p newItem),
                        s \<lparr> myList := ds, redis := invalidateUserCache (redis s) userId \<rparr>))))"

definition removeFromList :: "sys \<Rightarrow> string \<Rightarrow> string \<Rightarrow> (error + unit) \<times> sys" where
  "removeFromList s userId cId =
     (case deleteOne (myList s) userId cId of
        (deletedCount, ds) \<Rightarrow>
          if deletedCount = 0 then (Inl (NotFoundError ITEM_NOT_IN_LIST), s)
          else (Inr (), s \<lparr> myList := ds, redis := invalidateUserCache (redis s) userId \<rparr>))"

text \<open>The \<open>params\<close> of \<open>getList\<close>: \<open>{ page?: number; limit?: number; cursor?: string }\<close>.\<close>

record ListParams =
  page_param :: "nat option"
  limit_param :: "nat option"
  cursor_param :: "string option"

text \<open>The read from the database that \<open>getList\<close> makes on a cache miss.\<close>

definition fetchFromDatabase ::
  "platform \<Rightarrow> MyListItem list \<Rightarrow> string \<Rightarrow> PaginationType \<Rightarrow> ListParams \<Rightarrow> nat
     \<Rightarrow> error + ListResult" where
  "fetchFromDatabase p ds userId type params lmt =
     (case type of
        PT_offset \<Rightarrow>
          Inr (getListWithOffsetPagination p ds userId
                 (orDefault (page_param params) 1) lmt)
      | PT_cursor \<Rightarrow> getListWithCursorPagination p ds userId (cursor_param params) lmt)"

definition withCacheHit :: "bool \<Rightarrow> ListResult \<Rightarrow> PaginatedListResult" where
  "withCacheHit hit data = \<lparr> items = items data, pagination = pagination data, cacheHit = hit \<rparr>"

definition getList ::
  "platform \<Rightarrow> sys \<Rightarrow> string \<Rightarrow> PaginationType \<Rightarrow> ListParams
     \<Rightarrow> (error + PaginatedListResult) \<times> sys" where
  "getList p s userId type params =
     (let lmt = orDefault (limit_param params) 10;
          cacheKey = getCacheKey userId type (page_param params) (cursor_param params) lmt
      in case CacheService_get (redis s) cacheKey of
           (Some data, r1) \<Rightarrow> (Inr (withCacheHit True data), s \<lparr> redis := r1 \<rparr>)
         | (None, r1) \<Rightarrow>
             (case fetchFromDatabase p (myList s) userId type params lmt of
                Inl e \<Rightarrow> (Inl e, s \<lparr> redis := r1 \<rparr>)
              | Inr result \<Rightarrow>
                  (Inr (withCacheHit False result),
                   s \<lparr> redis := CacheService_set r1 cacheKey result \<rparr>)))"

text \<open>The forward walk through \<open>getList\<close>, with the state it leaves.\<close>

fun listWalk ::
  "platform \<Rightarrow> sys \<Rightarrow> string \<Rightarrow> nat \<Rightarrow> nat \<Rightarrow> string option
     \<Rightarrow> (error + ListItemData list) option \<times> sys" where
  "listWalk p s userId lmt 0 cursor = (None, s)"
| "listWalk p s userId lmt (Suc fuel) cursor =
     (case getList p s userId PT_cursor
             \<lparr> page_param = None, limit_param = Some lmt, cursor_param = cursor \<rparr> of
        (Inl e, s') \<Rightarrow> (Some (Inl e), s')
      | (Inr r, s') \<Rightarrow>
          if hasNextPage (pagination r) then
            (case listWalk p s' userId lmt fuel (nextCursor (pagination r)) of
               (None, s'') \<Rightarrow> (None, s'')
             | (Some (Inl e), s'') \<Rightarrow> (Some (Inl e), s'')
             | (Some (Inr rest), s'') \<Rightarrow> (Some (Inr (items r @ rest)), s''))
          else (Some (Inr (items r)), s'))"

section \<open>Concurrent calls of addToList\<close>

text \<open>
  \<open>addToList\<close> reads the collection once (\<open>findOne\<close>) and writes it once (\<open>create\<close>). The
  content lookup between them reads only the catalogue, which \<open>addToList\<close> never changes,
  and the invalidation after the insert changes only the cache, which \<open>addToList\<close> never
  reads; so the lookup is taken with the check and the invalidation with the insert. These
  are the two halves; \<open>addToList\<close> is the second after the first (lemma
  \<open>addToList_split\<close>).
\<close>

definition addToList_check ::
  "platform \<Rightarrow> instant \<Rightarrow> sys \<Rightarrow> string \<Rightarrow> string \<Rightarrow> ContentType \<Rightarrow> error + ContentData" where
  "addToList_check p lookupTime s userId cId cType =
     (case findOne (myList s) userId cId of
        Some existingItem \<Rightarrow> Inl (ConflictError ITEM_ALREADY_IN_LIST)
      | None \<Rightarrow> fetchContentData p lookupTime s cId cType)"

definition addToList_write ::
  "platform \<Rightarrow> instant \<Rightarrow> ObjectId \<Rightarrow> sys \<Rightarrow> string \<Rightarrow> string \<Rightarrow> ContentType \<Rightarrow> ContentData
     \<Rightarrow> (error + ListItemData) \<times> sys" where
  "addToList_write p now newId s userId cId cType contentData =
     (let newItem =
            \<lparr> doc_id = newId, user_id = userId, content_id = cId,
              content_type = cType, added_at = now,
              MyListItem.title = ContentData.title contentData,
              MyListItem.description = ContentData.description contentData,
              MyListItem.genres = ContentData.genres contentData,
              release_date = ContentData.releaseDate contentData,
              MyListItem.director = ContentData.director contentData,
              MyListItem.actors = ContentData.actors contentData \<rparr>
      in case create (myList s) newItem of
           Inl e \<Rightarrow> (Inl e, s)
         | Inr ds \<Rightarrow>
             (Inr (mapToListItemData p newItem),
              s \<lparr> myList := ds, redis := invalidateUserCache (redis s) userId \<rparr>))"

text \<open>
  Calls of \<open>addToList\<close> for one user and content that run at the same time, in one process
  or several: each call has its two readings of the clock and the ObjectId its driver
  generates, and is before its check, between check and insert, or finished with its
  result. A step runs the next store operation of one unfinished call on the shared state;
  each store operation is atomic.
\<close>

datatype phase = Started | Checked ContentData | Finished "error + ListItemData"

record call =
  lookupClock :: instant
  clock :: instant
  freshId :: ObjectId
  phase :: phase

inductive concurrentAdd ::
  "platform \<Rightarrow> string \<Rightarrow> string \<Rightarrow> ContentType \<Rightarrow> sys \<times> call list \<Rightarrow> sys \<times> call list \<Rightarrow> bool"
  for p :: platform and userId :: string and cId :: string and cType :: ContentType where
  check_step:
    "i < length cs \<Longrightarrow> phase (cs ! i) = Started
     \<Longrightarrow> concurrentAdd p userId cId cType (s, cs)
           (s, cs[i := (cs ! i) \<lparr> phase :=
                 (case addToList_check p (lookupClock (cs ! i)) s userId cId cType of
                    Inl e \<Rightarrow> Finished (Inl e)
                  | Inr contentData \<Rightarrow> Checked contentData) \<rparr>])"
| write_step:
    "i < length cs \<Longrightarrow> phase (cs ! i) = Checked contentData
     \<Longrightarrow> addToList_write p (clock (cs ! i)) (freshId (cs ! i)) s userId cId cType contentData
           = (res, s')
     \<Longrightarrow> concurrentAdd p userId cId cType (s, cs) (s', cs[i := (cs ! i) \<lparr> phase := Finished res \<rparr>])"

text \<open>The states the service reaches from an empty collection; the cache may also change
  on its own (expiry, outages).\<close>

inductive reachable :: "platform \<Rightarrow> sys \<Rightarrow> bool" for p :: platform where
  initial: "myList s = [] \<Longrightarrow> reachable p s"
| add: "reachable p s \<Longrightarrow> reachable p (snd (addToList p t0 now newId s u cid ct))"
| remove: "reachable p s \<Longrightarrow> reachable p (snd (removeFromList s u cid))"
| list: "reachable p s \<Longrightarrow> reachable p (snd (getList p s u ty params))"
| cache: "reachable p s \<Longrightarrow> reachable p (s \<lparr> redis := r \<rparr>)"

section \<open>Notions the properties are stated with\<close>



text \<open>
  What the cursor codec needs from the libraries for one document: the next cursor of the
  document is a non-empty string that \<open>Buffer\<close> decodes back to the JSON text, the text
  parses back to the object, the ISO string of the date is non-empty and \<open>new Date\<close> reads
  it back (a \<open>Date\<close> and its ISO string both have millisecond precision), and the string
  of the id is non-empty. The second predicate says that Mongoose casts the string of the id
  back to the id.
\<close>

definition libs_roundtrip :: "platform \<Rightarrow> MyListItem \<Rightarrow> bool" where
  "libs_roundtrip p d =
     (let obj = cursorObject p d;
          text = JSON_stringify p obj;
          c = Buffer_to_base64 p text
      in c \<noteq> [] \<and> Buffer_from_base64 p c = Some text \<and> JSON_parse p text = Some obj
         \<and> toISOString p (added_at d) \<noteq> []
         \<and> new_Date p (JStr (toISOString p (added_at d))) = Some (added_at d)
         \<and> ObjectId_toString p (doc_id d) \<noteq> [])"

definition id_cast_roundtrip :: "platform \<Rightarrow> MyListItem \<Rightarrow> bool" where
  "id_cast_roundtrip p d =
     (castObjectId p (JStr (ObjectId_toString p (doc_id d))) = Some (doc_id d))"

text \<open>The entries of a user in canonical order: \<open>added_at\<close> descending, then \<open>_id\<close>
  descending.\<close>

definition userEntries :: "MyListItem list \<Rightarrow> string \<Rightarrow> MyListItem list" where
  "userEntries docs u = sort_added_at_id_desc (filter (\<lambda>d. user_id d = u) docs)"

definition canonical_before :: "MyListItem \<Rightarrow> MyListItem \<Rightarrow> bool" where
  "canonical_before a b =
     (added_at b < added_at a \<or> (added_at a = added_at b \<and> doc_id b < doc_id a))"

text \<open>The cursor a walk holds after \<open>k\<close> entries of the list \<open>S\<close>.\<close>

definition walkCursor :: "platform \<Rightarrow> MyListItem list \<Rightarrow> nat \<Rightarrow> string option" where
  "walkCursor p S k = (if k = 0 then None else Some (encodeCursor p (S ! (k - 1))))"

text \<open>The cache key of the call a walk makes after \<open>k\<close> entries.\<close>

definition walkKey :: "platform \<Rightarrow> string \<Rightarrow> nat \<Rightarrow> MyListItem list \<Rightarrow> nat \<Rightarrow> string" where
  "walkKey p u lmt S k = getCacheKey u PT_cursor None (walkCursor p S k) lmt"

text \<open>
  The pages of a user's walk with limit \<open>lmt\<close> that the cache holds are current. A page of
  the walk starts after \<open>k\<close> entries, for \<open>k\<close> a multiple of the limit below the number of
  the user's entries (and \<open>k = 0\<close>, the first page, in any case); under the key of the call
  for each such page the cache holds nothing, or the page that the database read returns
  for that call now.
\<close>

definition walkPagesCurrent :: "platform \<Rightarrow> sys \<Rightarrow> string \<Rightarrow> nat \<Rightarrow> bool" where
  "walkPagesCurrent p s u lmt =
     (let S = userEntries (myList s) u
      in list_all
           (\<lambda>k. case map_of (kv (redis s)) (walkKey p u lmt S k) of
                  None \<Rightarrow> True
                | Some cached \<Rightarrow>
                    getListWithCursorPagination p (myList s) u (walkCursor p S k) lmt
                      = Inr cached)
           (filter (\<lambda>k. k mod lmt = 0) [0 ..< max 1 (length S)]))"


text \<open>The prefix of every cache key of a user, and the characters Redis reads as glob
  syntax.\<close>

definition userNamespace :: "string \<Rightarrow> string" where
  "userNamespace u = ''mylist:'' @ u @ '':''"

definition glob_special :: "char \<Rightarrow> bool" where
  "glob_special c = (c = CHR ''*'' \<or> c = CHR ''?'' \<or> c = CHR ''['' \<or> c = CHR 0x5C)"

text \<open>The pair a document is unique by; the outcome of a call; what a call has left to
  do; and what holds in every state of a run of concurrent adds that starts at \<open>s0\<close>,
  \<open>cs0\<close>.\<close>

definition pairOf :: "MyListItem \<Rightarrow> string \<times> string" where
  "pairOf d = (user_id d, content_id d)"

definition hasPair :: "string \<Rightarrow> string \<Rightarrow> MyListItem \<Rightarrow> bool" where
  "hasPair u cid d = (user_id d = u \<and> content_id d = cid)"

definition succeeded :: "call \<Rightarrow> bool" where
  "succeeded c = (case phase c of Finished (Inr item) \<Rightarrow> True | _ \<Rightarrow> False)"

definition conflicted :: "call \<Rightarrow> bool" where
  "conflicted c = (case phase c of Finished (Inl e) \<Rightarrow> fst (errorHandler e) = 409 | _ \<Rightarrow> False)"

definition finished :: "call \<Rightarrow> bool" where
  "finished c = (case phase c of Finished res \<Rightarrow> True | _ \<Rightarrow> False)"

definition remaining :: "call \<Rightarrow> nat" where
  "remaining c = (case phase c of Started \<Rightarrow> 2 | Checked cd \<Rightarrow> 1 | Finished res \<Rightarrow> 0)"

definition addInvariant ::
  "string \<Rightarrow> string \<Rightarrow> sys \<Rightarrow> call list \<Rightarrow> sys \<Rightarrow> call list \<Rightarrow> bool" where
  "addInvariant u cid s0 cs0 s cs =
     (map lookupClock cs = map lookupClock cs0
      \<and> map clock cs = map clock cs0 \<and> map freshId cs = map freshId cs0
      \<and> movies s = movies s0 \<and> tvShows s = tvShows s0
      \<and> length (filter (hasPair u cid) (myList s)) = length (filter succeeded cs)
      \<and> length (filter succeeded cs) \<le> 1
      \<and> (\<forall>c\<in>set cs. (\<exists>e. phase c = Finished (Inl e))
            \<longrightarrow> conflicted c \<and> filter (hasPair u cid) (myList s) \<noteq> [])
      \<and> (filter (hasPair u cid) (myList s) = [] \<longrightarrow> myList s = myList s0))"

section \<open>Sample data for evaluation\<close>

text \<open>
  A finite table of the library functions at the values the sample documents need, as Node
  and Mongoose compute them, and a sample collection: three entries of one user, two of
  them added in the same millisecond, and one entry of another user.
\<close>

definition sample_dates :: "(instant \<times> string) list" where
  "sample_dates =
     [(1704110400000, ''2024-01-01T12:00:00.000Z''),
      (1704196800000, ''2024-01-02T12:00:00.000Z''),
      (1704283200000, ''2024-01-03T12:00:00.000Z'')]"

definition sample_ids :: "(ObjectId \<times> string) list" where
  "sample_ids =
     [(1, ''000000000000000000000001''),
      (2, ''000000000000000000000002''),
      (3, ''000000000000000000000003''),
      (4, ''000000000000000000000004''),
      (5, ''000000000000000000000005''),
      (6, ''000000000000000000000006''),
      (7, ''000000000000000000000007''),
      (8, ''000000000000000000000008''),
      (9, ''000000000000000000000009''),
      (10, ''00000000000000000000000a'')]"

definition sample_json :: "(string \<times> json) list" where
  \<open>sample_json =
     [(''{"added_at":"2024-01-01T12:00:00.000Z","id":"000000000000000000000001"}'',
       JObj [(''added_at'', JStr ''2024-01-01T12:00:00.000Z''), (''id'', JStr ''000000000000000000000001'')]),
      (''{"added_at":"2024-01-01T12:00:00.000Z","id":"000000000000000000000002"}'',
       JObj [(''added_at'', JStr ''2024-01-01T12:00:00.000Z''), (''id'', JStr ''000000000000000000000002'')]),
      (''{"added_at":"2024-01-02T12:00:00.000Z","id":"000000000000000000000003"}'',
       JObj [(''added_at'', JStr ''2024-01-02T12:00:00.000Z''), (''id'', JStr ''000000000000000000000003'')]),
      (''{"added_at":"2024-01-01T12:00:00.000Z","id":"000000000000000000000004"}'',
       JObj [(''added_at'', JStr ''2024-01-01T12:00:00.000Z''), (''id'', JStr ''000000000000000000000004'')]),
      (''{"added_at":"2024-01-03T12:00:00.000Z","id":"000000000000000000000009"}'',
       JObj [(''added_at'', JStr ''2024-01-03T12:00:00.000Z''), (''id'', JStr ''000000000000000000000009'')]),
      (''{"wrong":"data"}'',
       JObj [(''wrong'', JStr ''data'')]),
      (''{"added_at":"not-a-date"}'',
       JObj [(''added_at'', JStr ''not-a-date'')])]\<close>

definition sample_base64 :: "(string \<times> string) list" where
  \<open>sample_base64 =
     [(''eyJhZGRlZF9hdCI6IjIwMjQtMDEtMDFUMTI6MDA6MDAuMDAwWiIsImlkIjoiMDAwMDAwMDAwMDAwMDAwMDAwMDAwMDAxIn0='',
       ''{"added_at":"2024-01-01T12:00:00.000Z","id":"000000000000000000000001"}''),
      (''eyJhZGRlZF9hdCI6IjIwMjQtMDEtMDFUMTI6MDA6MDAuMDAwWiIsImlkIjoiMDAwMDAwMDAwMDAwMDAwMDAwMDAwMDAyIn0='',
       ''{"added_at":"2024-01-01T12:00:00.000Z","id":"000000000000000000000002"}''),
      (''eyJhZGRlZF9hdCI6IjIwMjQtMDEtMDJUMTI6MDA6MDAuMDAwWiIsImlkIjoiMDAwMDAwMDAwMDAwMDAwMDAwMDAwMDAzIn0='',
       ''{"added_at":"2024-01-02T12:00:00.000Z","id":"000000000000000000000003"}''),
      (''eyJhZGRlZF9hdCI6IjIwMjQtMDEtMDFUMTI6MDA6MDAuMDAwWiIsImlkIjoiMDAwMDAwMDAwMDAwMDAwMDAwMDAwMDA0In0='',
       ''{"added_at":"2024-01-01T12:00:00.000Z","id":"000000000000000000000004"}''),
      (''eyJhZGRlZF9hdCI6IjIwMjQtMDEtMDNUMTI6MDA6MDAuMDAwWiIsImlkIjoiMDAwMDAwMDAwMDAwMDAwMDAwMDAwMDA5In0='',
       ''{"added_at":"2024-01-03T12:00:00.000Z","id":"000000000000000000000009"}''),
      (''eyJ3cm9uZyI6ImRhdGEifQ=='',
       ''{"wrong":"data"}''),
      (''eyJhZGRlZF9hdCI6Im5vdC1hLWRhdGUifQ=='',
       ''{"added_at":"not-a-date"}''),
      (''bm90IGpzb24='',
       ''not json'')]\<close>

definition sample_platform :: platform where
  "sample_platform =
     \<lparr> Buffer_from_base64 = (\<lambda>c. Some (case map_of sample_base64 c of Some t \<Rightarrow> t | None \<Rightarrow> [])),
       Buffer_to_base64 = (\<lambda>t. case map_of (map prod.swap sample_base64) t of Some c \<Rightarrow> c | None \<Rightarrow> []),
       JSON_parse = map_of sample_json,
       JSON_stringify = (\<lambda>j. case map_of (map prod.swap sample_json) j of Some t \<Rightarrow> t | None \<Rightarrow> []),
       new_Date = (\<lambda>v. case v of JStr s \<Rightarrow> map_of (map prod.swap sample_dates) s | _ \<Rightarrow> None),
       toISOString = (\<lambda>t. case map_of sample_dates t of Some s \<Rightarrow> s | None \<Rightarrow> []),
       ObjectId_toString = (\<lambda>i. case map_of sample_ids i of Some s \<Rightarrow> s | None \<Rightarrow> []),
       castObjectId = (\<lambda>v. case v of JStr s \<Rightarrow> map_of (map prod.swap sample_ids) s | _ \<Rightarrow> None) \<rparr>"

text \<open>The same table with a decoder that throws on a string it does not know.\<close>

definition sample_platform_strict :: platform where
  "sample_platform_strict = sample_platform \<lparr> Buffer_from_base64 := map_of sample_base64 \<rparr>"

definition sample_doc :: "ObjectId \<Rightarrow> string \<Rightarrow> string \<Rightarrow> instant \<Rightarrow> MyListItem" where
  "sample_doc i u c t =
     \<lparr> doc_id = i, user_id = u, content_id = c, content_type = CT_movie, added_at = t,
       MyListItem.title = ''Movie'', MyListItem.description = ''A'', MyListItem.genres = [Action],
       release_date = 0, MyListItem.director = Some ''D'', MyListItem.actors = [''A''] \<rparr>"

definition sample_docs :: "MyListItem list" where
  "sample_docs =
     [sample_doc 1 ''alice'' ''000000000000000000000005'' 1704110400000,
      sample_doc 2 ''alice'' ''000000000000000000000006'' 1704110400000,
      sample_doc 4 ''bob'' ''000000000000000000000005'' 1704110400000,
      sample_doc 3 ''alice'' ''000000000000000000000007'' 1704196800000]"

text \<open>The catalogue: four movies and one show; and a state with the sample collection
  and an empty cache that answers every command.\<close>

definition sample_movie :: "ObjectId \<Rightarrow> string \<Rightarrow> IMovie" where
  "sample_movie i t =
     \<lparr> movie_id = i, IMovie.title = t, IMovie.description = ''A'', IMovie.genres = [Action],
       IMovie.releaseDate = 0, IMovie.director = ''D'', IMovie.actors = [''A''] \<rparr>"

definition sample_show :: ITVShow where
  "sample_show =
     \<lparr> show_id = 10, ITVShow.title = ''Show'', ITVShow.description = ''S'',
       ITVShow.genres = [Drama],
       episodes =
         [\<lparr> episodeNumber = 1, seasonNumber = 1, IEpisode.releaseDate = 5,
            IEpisode.director = ''E'', IEpisode.actors = [''X'', ''Y''] \<rparr>,
          \<lparr> episodeNumber = 2, seasonNumber = 1, IEpisode.releaseDate = 6,
            IEpisode.director = ''F'', IEpisode.actors = [''Y'', ''Z''] \<rparr>] \<rparr>"

definition sample_sys :: sys where
  "sample_sys =
     \<lparr> myList = sample_docs,
       movies = [sample_movie 5 ''Movie'', sample_movie 6 ''Movie'', sample_movie 7 ''Movie'',
                 sample_movie 8 ''Movie''],
       tvShows = [sample_show],
       redis = \<lparr> kv = [], outages = [] \<rparr> \<rparr>"

text \<open>No parameters; the sample state after the first offset page of each of the two
  users was read and cached; the same with the next Redis command failing; and with the
  next two failing.\<close>

definition no_params :: ListParams where
  "no_params = \<lparr> page_param = None, limit_param = None, cursor_param = None \<rparr>"

definition sample_cached_sys :: sys where
  "sample_cached_sys =
     snd (getList sample_platform
            (snd (getList sample_platform sample_sys ''alice'' PT_offset no_params))
            ''bob'' PT_offset no_params)"




definition sample_walked_sys :: sys where
  "sample_walked_sys = snd (listWalk sample_platform sample_sys ''alice'' 2 5 None)"

definition sample_stale_sys :: sys where
  "sample_stale_sys =
     snd (removeFromList
            (sample_walked_sys \<lparr> redis := (redis sample_walked_sys) \<lparr> outages := [True] \<rparr> \<rparr>)
            ''alice'' ''000000000000000000000007'')"

definition sample_stale_added_sys :: sys where
  "sample_stale_added_sys =
     snd (addToList sample_platform 1704283200000 1704283200000 9
            (sample_walked_sys \<lparr> redis := (redis sample_walked_sys) \<lparr> outages := [True] \<rparr> \<rparr>)
            ''alice'' ''000000000000000000000008'' CT_movie)"

text \<open>The sample state without entries; the content data of the sample movies; a call;
  and the sample state after alice's add of movie 8.\<close>

definition empty_sys :: sys where
  "empty_sys = sample_sys \<lparr> myList := [] \<rparr>"

definition sample_content :: ContentData where
  "sample_content =
     \<lparr> ContentData.title = ''Movie'', ContentData.description = ''A'',
       ContentData.genres = [Action], ContentData.releaseDate = 0,
       ContentData.director = Some ''D'', ContentData.actors = [''A''] \<rparr>"

definition sample_call :: "instant \<Rightarrow> ObjectId \<Rightarrow> phase \<Rightarrow> call" where
  "sample_call t i ph = \<lparr> lookupClock = t, clock = t, freshId = i, phase = ph \<rparr>"

definition sample_added_sys :: sys where
  "sample_added_sys =
     snd (addToList_write sample_platform 1704283200000 9 sample_sys
            ''alice'' ''000000000000000000000008'' CT_movie sample_content)"

section \<open>The cursor codec and the cursor walk\<close>

lemma decode_encode:
  assumes "libs_roundtrip p d"
  shows "decodeCursor p (encodeCursor p d)
           = Inr (added_at d, Some (JStr (ObjectId_toString p (doc_id d))))"
  using assms
  by (simp add: libs_roundtrip_def decodeCursor_def encodeCursor_def Let_def cursorObject_def)

lemma encode_nonempty: "libs_roundtrip p d \<Longrightarrow> encodeCursor p d \<noteq> []"
  by (simp add: libs_roundtrip_def encodeCursor_def Let_def)

lemma filter_after_sorted:
  fixes f :: "'a \<Rightarrow> 'b::linorder"
  shows "sorted_wrt (<) (map f xs) \<Longrightarrow> j < length xs
     \<Longrightarrow> filter (\<lambda>x. f (xs ! j) < f x) xs = drop (Suc j) xs"
proof (induction xs arbitrary: j)
  case Nil
  then show ?case by simp
next
  case (Cons x xs)
  show ?case
  proof (cases j)
    case 0
    from Cons.prems have "\<forall>y\<in>set xs. f x < f y" by simp
    then have "filter (\<lambda>y. f x < f y) xs = xs" by (simp add: filter_id_conv)
    with 0 show ?thesis by simp
  next
    case (Suc j')
    with Cons.prems have j': "j' < length xs" by simp
    from Cons.prems have "\<forall>y\<in>set xs. f x < f y" by simp
    with j' have "f x < f (xs ! j')" by simp
    then have "\<not> f (xs ! j') < f x" by simp
    moreover from Cons.prems have "sorted_wrt (<) (map f xs)" by simp
    ultimately show ?thesis using Cons.IH[OF _ j'] Suc by simp
  qed
qed

lemma matches_tie_key:
  "matches (ByUserBeforeTie u (added_at c) (doc_id c)) d
     = (user_id d = u \<and> canonical_key c < canonical_key d)"
  by (auto simp: canonical_key_def)

lemma userEntries_strict:
  assumes "distinct (map doc_id docs)"
  shows "sorted_wrt (<) (map canonical_key (userEntries docs u))"
proof -
  have inj: "inj_on canonical_key (set docs)"
    using assms by (auto simp: inj_on_def canonical_key_def distinct_map)
  have "distinct (map doc_id (filter (\<lambda>d. user_id d = u) docs))"
    using assms by (simp add: distinct_map_filter)
  then have "distinct (map canonical_key (filter (\<lambda>d. user_id d = u) docs))"
    by (auto simp: distinct_map inj_on_def canonical_key_def)
  then have "distinct (map canonical_key (userEntries docs u))"
    unfolding userEntries_def sort_added_at_id_desc_def
    by (metis distinct_map distinct_sort set_sort)
  moreover have "sorted (map canonical_key (userEntries docs u))"
    unfolding userEntries_def sort_added_at_id_desc_def by simp
  ultimately show ?thesis by (simp add: strict_sorted_iff)
qed

lemma find_after:
  assumes "distinct (map doc_id docs)" "j < length (userEntries docs u)"
  shows "sort_added_at_id_desc
           (filter (matches (ByUserBeforeTie u (added_at (userEntries docs u ! j))
                                              (doc_id (userEntries docs u ! j)))) docs)
         = drop (Suc j) (userEntries docs u)"
proof -
  let ?S = "userEntries docs u"
  let ?c = "?S ! j"
  have "filter (matches (ByUserBeforeTie u (added_at ?c) (doc_id ?c))) docs
          = filter (\<lambda>d. canonical_key ?c < canonical_key d) (filter (\<lambda>d. user_id d = u) docs)"
    unfolding filter_filter by (rule filter_cong[OF refl]) (simp only: matches_tie_key conj_commute)
  then have "sort_added_at_id_desc (filter (matches (ByUserBeforeTie u (added_at ?c) (doc_id ?c))) docs)
          = filter (\<lambda>d. canonical_key ?c < canonical_key d) ?S"
    unfolding userEntries_def sort_added_at_id_desc_def by (simp add: filter_sort)
  also have "\<dots> = drop (Suc j) ?S"
    using filter_after_sorted[OF userEntries_strict[OF assms(1)] assms(2)] .
  finally show ?thesis .
qed

lemma last_take_nth: "1 \<le> n \<Longrightarrow> n < length L \<Longrightarrow> last (take n L) = L ! (n - 1)"
  by (cases n) (simp_all add: take_Suc_conv_app_nth)

lemma page_of_query:
  assumes "1 \<le> lmt"
    and "(case cursor of None \<Rightarrow> Inr None
          | Some c \<Rightarrow> if c = [] then Inr None else map_sum (\<lambda>e. e) Some (decodeCursor p c)) = Inr decoded"
    and "buildCursorQuery p userId decoded = Inr query"
    and "sort_added_at_id_desc (filter (matches query) docs) = L"
  shows "getListWithCursorPagination p docs userId cursor lmt =
           Inr \<lparr> items = map (mapToListItemData p) (take lmt L),
                 pagination = CursorPagination lmt
                   (if lmt < length L then Some (encodeCursor p (L ! (lmt - 1))) else None)
                   (if truthy_str cursor then cursor else None)
                   (lmt < length L) (truthy_str cursor) \<rparr>"
proof (cases "lmt < length L")
  case True
  then have "length (take (lmt + 1) L) > lmt" by simp
  moreover have "take lmt (take (lmt + 1) L) = take lmt L" by (simp add: min_def)
  moreover have "take lmt L \<noteq> []" using True assms(1) by auto
  moreover have "last (take lmt L) = L ! (lmt - 1)" using last_take_nth[OF assms(1) True] .
  ultimately show ?thesis
    using True by (simp add: getListWithCursorPagination_def assms(2,3,4) Let_def)
next
  case False
  then have "\<not> length (take (lmt + 1) L) > lmt" by simp
  moreover have "take (lmt + 1) L = take lmt L" using False by simp
  ultimately show ?thesis
    using False by (simp add: getListWithCursorPagination_def assms(2,3,4) Let_def)
qed

lemma user_query_all:
  "sort_added_at_id_desc (filter (matches (ByUser u)) docs) = userEntries docs u"
  unfolding userEntries_def by (rule arg_cong[where f = sort_added_at_id_desc], rule filter_cong) simp_all

lemma page_at:
  assumes lmt: "1 \<le> lmt"
    and ids: "distinct (map doc_id docs)"
    and libs: "\<forall>d\<in>set (userEntries docs u). libs_roundtrip p d \<and> id_cast_roundtrip p d"
    and k: "k \<le> length (userEntries docs u)"
  shows "getListWithCursorPagination p docs u (walkCursor p (userEntries docs u) k) lmt =
           Inr \<lparr> items = map (mapToListItemData p) (take lmt (drop k (userEntries docs u))),
                 pagination = CursorPagination lmt
                   (if k + lmt < length (userEntries docs u)
                    then walkCursor p (userEntries docs u) (k + lmt) else None)
                   (walkCursor p (userEntries docs u) k)
                   (k + lmt < length (userEntries docs u)) (k \<noteq> 0) \<rparr>"
proof (cases "k = 0")
  case True
  have "getListWithCursorPagination p docs u None lmt =
           Inr \<lparr> items = map (mapToListItemData p) (take lmt (userEntries docs u)),
                 pagination = CursorPagination lmt
                   (if lmt < length (userEntries docs u)
                    then Some (encodeCursor p (userEntries docs u ! (lmt - 1))) else None)
                   (if truthy_str None then None else None)
                   (lmt < length (userEntries docs u)) (truthy_str None) \<rparr>"
    by (rule page_of_query[OF lmt _ _ user_query_all, where decoded = None])
       (simp_all add: buildCursorQuery_def)
  with True lmt show ?thesis by (simp add: walkCursor_def)
next
  case False
  let ?S = "userEntries docs u"
  let ?c = "?S ! (k - 1)"
  from False k have j: "k - 1 < length ?S" by simp
  then have mem: "?c \<in> set ?S" by simp
  with libs have rt: "libs_roundtrip p ?c" and cast: "id_cast_roundtrip p ?c" by auto
  have ne: "encodeCursor p ?c \<noteq> []" using encode_nonempty[OF rt] .
  have idne: "ObjectId_toString p (doc_id ?c) \<noteq> []"
    using rt by (simp add: libs_roundtrip_def Let_def)
  have dec: "(case Some (encodeCursor p ?c) of None \<Rightarrow> Inr None
          | Some c \<Rightarrow> if c = [] then Inr None else map_sum (\<lambda>e. e) Some (decodeCursor p c))
        = Inr (Some (added_at ?c, Some (JStr (ObjectId_toString p (doc_id ?c)))))"
    using ne decode_encode[OF rt] by simp
  have q: "buildCursorQuery p u (Some (added_at ?c, Some (JStr (ObjectId_toString p (doc_id ?c)))))
        = Inr (ByUserBeforeTie u (added_at ?c) (doc_id ?c))"
    using idne cast by (simp add: buildCursorQuery_def id_cast_roundtrip_def)
  have L: "sort_added_at_id_desc (filter (matches (ByUserBeforeTie u (added_at ?c) (doc_id ?c))) docs)
        = drop k ?S"
    using find_after[OF ids j] False by simp
  have len: "(lmt < length (drop k ?S)) = (k + lmt < length ?S)" by auto
  have nth: "drop k ?S ! (lmt - 1) = ?S ! (k + lmt - 1)" if "k + lmt < length ?S"
    using that lmt by (simp add: add.commute)
  show ?thesis
    using page_of_query[OF lmt dec q L] False ne lmt nth
    by (auto simp: walkCursor_def len)
qed

lemma walk_from:
  assumes lmt: "1 \<le> lmt"
    and ids: "distinct (map doc_id docs)"
    and libs: "\<forall>d\<in>set (userEntries docs u). libs_roundtrip p d \<and> id_cast_roundtrip p d"
  shows "k \<le> length (userEntries docs u) \<Longrightarrow> length (userEntries docs u) - k < fuel
     \<Longrightarrow> cursorWalk p docs u lmt fuel (walkCursor p (userEntries docs u) k)
           = Some (Inr (map (mapToListItemData p) (drop k (userEntries docs u))))"
proof (induction fuel arbitrary: k)
  case 0
  then show ?case by simp
next
  case (Suc fuel)
  let ?S = "userEntries docs u"
  note pg = page_at[OF lmt ids libs Suc.prems(1)]
  show ?case
  proof (cases "k + lmt < length ?S")
    case True
    then have k': "k + lmt \<le> length ?S" by simp
    have fuel': "length ?S - (k + lmt) < fuel" using Suc.prems(2) lmt True by linarith
    have split: "take lmt (drop k ?S) @ drop (k + lmt) ?S = drop k ?S"
      by (metis add.commute append_take_drop_id drop_drop)
    show ?thesis
      using Suc.IH[OF k' fuel'] True
      by (simp add: pg flip: map_append) (simp add: split)
  next
    case False
    then have "take lmt (drop k ?S) = drop k ?S" by simp
    with False show ?thesis by (simp add: pg)
  qed
qed

lemma sample_roundtrips:
  "\<forall>d\<in>set sample_docs. libs_roundtrip sample_platform d \<and> id_cast_roundtrip sample_platform d"
  by code_simp

section \<open>Decoding failures and the cursor page\<close>

lemma decode_failures:
  "Buffer_from_base64 p c = None \<Longrightarrow> decodeCursor p c = Inl (BadRequestError INVALID_CURSOR_FORMAT)"
  "Buffer_from_base64 p c = Some text \<Longrightarrow> JSON_parse p text = None
     \<Longrightarrow> decodeCursor p c = Inl (BadRequestError INVALID_CURSOR_FORMAT)"
  "Buffer_from_base64 p c = Some text \<Longrightarrow> JSON_parse p text = Some j
     \<Longrightarrow> get_field j ''added_at'' = None
     \<Longrightarrow> decodeCursor p c = Inl (BadRequestError INVALID_CURSOR_FORMAT)"
  "Buffer_from_base64 p c = Some text \<Longrightarrow> JSON_parse p text = Some j
     \<Longrightarrow> get_field j ''added_at'' = Some a \<Longrightarrow> \<not> truthy a \<or> new_Date p a = None
     \<Longrightarrow> decodeCursor p c = Inl (BadRequestError INVALID_CURSOR_FORMAT)"
  by (auto simp: decodeCursor_def)

text \<open>
  C7. The cursor codec round-trips: where the libraries round-trip (base64, JSON, the ISO
  string of the date), decoding the cursor encoded for an item gives back its \<open>added_at\<close>
  instant and the string of its id. Decoding fails with the BadRequest error "Invalid cursor
  format" (status 400) when the base64 transform throws, when the text is not JSON, when
  the parsed value has no \<open>added_at\<close>, and when \<open>added_at\<close> is falsy or no valid date; the
  service call with such a cursor fails with the same error.
\<close>

theorem cursor_codec_roundtrip:
  "(libs_roundtrip p d \<longrightarrow>
      decodeCursor p (encodeCursor p d)
        = Inr (added_at d, Some (JStr (ObjectId_toString p (doc_id d)))))
   \<and> (Buffer_from_base64 p c1 = None \<longrightarrow>
        decodeCursor p c1 = Inl (BadRequestError INVALID_CURSOR_FORMAT))
   \<and> (Buffer_from_base64 p c2 = Some text2 \<and> JSON_parse p text2 = None \<longrightarrow>
        decodeCursor p c2 = Inl (BadRequestError INVALID_CURSOR_FORMAT))
   \<and> (Buffer_from_base64 p c3 = Some text3 \<and> JSON_parse p text3 = Some j3
        \<and> get_field j3 ''added_at'' = None \<longrightarrow>
        decodeCursor p c3 = Inl (BadRequestError INVALID_CURSOR_FORMAT))
   \<and> (Buffer_from_base64 p c4 = Some text4 \<and> JSON_parse p text4 = Some j4
        \<and> get_field j4 ''added_at'' = Some a4 \<and> (\<not> truthy a4 \<or> new_Date p a4 = None) \<longrightarrow>
        decodeCursor p c4 = Inl (BadRequestError INVALID_CURSOR_FORMAT))
   \<and> (c \<noteq> [] \<and> decodeCursor p c = Inl e \<longrightarrow>
        getListWithCursorPagination p docs u (Some c) lmt = Inl e)
   \<and> fst (errorHandler (BadRequestError INVALID_CURSOR_FORMAT)) = 400"
  using decode_encode[of p d] decode_failures(1)[of p c1] decode_failures(2)[of p c2 text2]
    decode_failures(3)[of p c3 text3 j3] decode_failures(4)[of p c4 text4 j4 a4]
  by (auto simp: getListWithCursorPagination_def)


theorem cursor_codec_roundtrip_witness:
  "libs_roundtrip sample_platform_strict (sample_doc 1 ''alice'' ''000000000000000000000005'' 1704110400000)
   \<and> decodeCursor sample_platform_strict
         ''eyJhZGRlZF9hdCI6IjIwMjQtMDEtMDFUMTI6MDA6MDAuMDAwWiIsImlkIjoiMDAwMDAwMDAwMDAwMDAwMDAwMDAwMDAxIn0=''
       = Inr (1704110400000, Some (JStr ''000000000000000000000001''))
   \<and> Buffer_from_base64 sample_platform_strict ''invalid-base64'' = None
   \<and> decodeCursor sample_platform_strict ''invalid-base64''
       = Inl (BadRequestError ''Invalid cursor format'')
   \<and> decodeCursor sample_platform_strict ''bm90IGpzb24=''
       = Inl (BadRequestError ''Invalid cursor format'')
   \<and> decodeCursor sample_platform_strict ''eyJ3cm9uZyI6ImRhdGEifQ==''
       = Inl (BadRequestError ''Invalid cursor format'')
   \<and> decodeCursor sample_platform_strict ''eyJhZGRlZF9hdCI6Im5vdC1hLWRhdGUifQ==''
       = Inl (BadRequestError ''Invalid cursor format'')
   \<and> getListWithCursorPagination sample_platform_strict sample_docs ''alice''
         (Some ''eyJ3cm9uZyI6ImRhdGEifQ=='') 2
       = Inl (BadRequestError ''Invalid cursor format'')"
proof -
  let ?p = sample_platform_strict
  let ?d = "sample_doc 1 ''alice'' ''000000000000000000000005'' 1704110400000"
  have rt: "libs_roundtrip ?p ?d" by code_simp
  have enc: "encodeCursor ?p ?d
       = ''eyJhZGRlZF9hdCI6IjIwMjQtMDEtMDFUMTI6MDA6MDAuMDAwWiIsImlkIjoiMDAwMDAwMDAwMDAwMDAwMDAwMDAwMDAxIn0=''"
    by code_simp
  have ids: "ObjectId_toString ?p (doc_id ?d) = ''000000000000000000000001''" by code_simp
  have at: "added_at ?d = 1704110400000" by code_simp
  have c1: "Buffer_from_base64 ?p ''invalid-base64'' = None" by code_simp
  have c2: "Buffer_from_base64 ?p ''bm90IGpzb24='' = Some ''not json''
            \<and> JSON_parse ?p ''not json'' = None" by code_simp
  have c3: \<open>Buffer_from_base64 ?p ''eyJ3cm9uZyI6ImRhdGEifQ=='' = Some ''{"wrong":"data"}''
            \<and> JSON_parse ?p ''{"wrong":"data"}'' = Some (JObj [(''wrong'', JStr ''data'')])
            \<and> get_field (JObj [(''wrong'', JStr ''data'')]) ''added_at'' = None\<close> by code_simp
  have c4: \<open>Buffer_from_base64 ?p ''eyJhZGRlZF9hdCI6Im5vdC1hLWRhdGUifQ==''
              = Some ''{"added_at":"not-a-date"}''
            \<and> JSON_parse ?p ''{"added_at":"not-a-date"}''
              = Some (JObj [(''added_at'', JStr ''not-a-date'')])
            \<and> get_field (JObj [(''added_at'', JStr ''not-a-date'')]) ''added_at''
              = Some (JStr ''not-a-date'')
            \<and> (\<not> truthy (JStr ''not-a-date'') \<or> new_Date ?p (JStr ''not-a-date'') = None)\<close>
    by code_simp
  have ne: "''eyJ3cm9uZyI6ImRhdGEifQ=='' \<noteq> ([] :: string)" by simp
  note inst = cursor_codec_roundtrip[of "?p" "?d" "''invalid-base64''" "''bm90IGpzb24=''" "''not json''"
      "''eyJ3cm9uZyI6ImRhdGEifQ==''" _ "JObj [(''wrong'', JStr ''data'')]"
      "''eyJhZGRlZF9hdCI6Im5vdC1hLWRhdGUifQ==''" _
      "JObj [(''added_at'', JStr ''not-a-date'')]" "JStr ''not-a-date''"
      "''eyJ3cm9uZyI6ImRhdGEifQ==''" _ sample_docs "''alice''" 2]
  from inst rt c1 c2 c3 c4 ne show ?thesis
    unfolding enc ids at INVALID_CURSOR_FORMAT_def by blast
qed








section \<open>The offset page\<close>

lemma ceil_div_bounds:
  fixes n lmt :: nat
  assumes "1 \<le> lmt"
  shows "n \<le> ((n + lmt - 1) div lmt) * lmt"
    and "0 < n \<Longrightarrow> ((n + lmt - 1) div lmt - 1) * lmt < n"
proof -
  let ?q = "(n + lmt - 1) div lmt"
  have eq: "?q * lmt + (n + lmt - 1) mod lmt = n + lmt - 1" by simp
  have m: "(n + lmt - 1) mod lmt < lmt" using assms by simp
  show "n \<le> ?q * lmt" using eq m by linarith
  show "(?q - 1) * lmt < n" if "0 < n"
  proof -
    have "1 \<le> ?q" using that assms by (simp add: Suc_le_eq div_greater_zero_iff)
    then have "(?q - 1) * lmt = ?q * lmt - lmt" by (simp add: diff_mult_distrib)
    moreover have "?q * lmt \<le> n + lmt - 1" using eq by linarith
    ultimately show ?thesis using that assms by linarith
  qed
qed

lemma sort_added_at_desc_sorted:
  "sorted_wrt (\<lambda>a b. added_at b \<le> added_at a) (sort_added_at_desc ds)"
proof -
  have "sorted (map (\<lambda>d. - added_at d) (sort_added_at_desc ds))"
    unfolding sort_added_at_desc_def by simp
  then show ?thesis by (simp add: sorted_wrt_map)
qed

text \<open>
  What the offset page does for a page and a limit of at least 1: it returns the user's
  entries, ordered by \<open>added_at\<close> descending, after skipping \<open>(page - 1) * limit\<close> and taking
  \<open>limit\<close>; \<open>totalItems\<close> is the count of the user's entries, \<open>totalPages\<close> the rounded-up
  quotient, \<open>hasNextPage\<close> is \<open>page < totalPages\<close> and \<open>hasPrevPage\<close> is \<open>page > 1\<close>; a page
  beyond \<open>totalPages\<close> has no items and the same pagination block.
\<close>

lemma offset_page_metadata:
  fixes docs :: "MyListItem list" and u :: string and p :: platform and pg lmt :: nat
  assumes "1 \<le> pg" and "1 \<le> lmt"
  defines "mine \<equiv> filter (\<lambda>d. user_id d = u) docs"
  defines "r \<equiv> getListWithOffsetPagination p docs u pg lmt"
  shows "items r = map (mapToListItemData p) (take lmt (drop ((pg - 1) * lmt) (sort_added_at_desc mine)))"
    and "mset (sort_added_at_desc mine) = mset mine"
    and "sorted_wrt (\<lambda>a b. added_at b \<le> added_at a) (sort_added_at_desc mine)"
    and "pagination r = OffsetPagination pg lmt (length mine) ((length mine + lmt - 1) div lmt)
           (pg < (length mine + lmt - 1) div lmt) (1 < pg)"
    and "length mine \<le> totalPages (pagination r) * lmt"
    and "0 < length mine \<Longrightarrow> (totalPages (pagination r) - 1) * lmt < length mine"
    and "totalPages (pagination r) < pg \<Longrightarrow> items r = []"
proof -
  show it: "items r = map (mapToListItemData p) (take lmt (drop ((pg - 1) * lmt) (sort_added_at_desc mine)))"
    by (simp add: r_def mine_def getListWithOffsetPagination_def Let_def)
  show "mset (sort_added_at_desc mine) = mset mine"
    by (simp add: sort_added_at_desc_def)
  show "sorted_wrt (\<lambda>a b. added_at b \<le> added_at a) (sort_added_at_desc mine)"
    by (rule sort_added_at_desc_sorted)
  show pag: "pagination r = OffsetPagination pg lmt (length mine) ((length mine + lmt - 1) div lmt)
           (pg < (length mine + lmt - 1) div lmt) (1 < pg)"
    by (simp add: r_def mine_def getListWithOffsetPagination_def Let_def)
  show up: "length mine \<le> totalPages (pagination r) * lmt"
    using ceil_div_bounds(1)[OF assms(2)] by (simp add: pag)
  show "0 < length mine \<Longrightarrow> (totalPages (pagination r) - 1) * lmt < length mine"
    using ceil_div_bounds(2)[OF assms(2)] by (simp add: pag)
  show "items r = []" if "totalPages (pagination r) < pg"
  proof -
    from that have "totalPages (pagination r) \<le> pg - 1" by simp
    then have "totalPages (pagination r) * lmt \<le> (pg - 1) * lmt" by (rule mult_le_mono1)
    with up have "length mine \<le> (pg - 1) * lmt" by (rule order_trans)
    then have "length (sort_added_at_desc mine) \<le> (pg - 1) * lmt"
      by (simp add: sort_added_at_desc_def)
    then show ?thesis by (simp add: it)
  qed
qed

text \<open>
  C6. Offset mode does not return entries that share \<open>added_at\<close> in canonical order
  (\<open>added_at\<close> descending, then \<open>_id\<close> descending): the offset query sorts by \<open>added_at\<close>
  only, while the cursor query sorts by \<open>added_at\<close> and \<open>_id\<close>. On the sample collection,
  whose entries 1 and 2 were added in the same millisecond, page 1 with limit 10 returns
  the ids 3, 1, 2, and the canonical order is 3, 2, 1.
\<close>

theorem offset_page_tie_order:
  "map item_id (items (getListWithOffsetPagination sample_platform sample_docs ''alice'' 1 10))
     = [''000000000000000000000003'', ''000000000000000000000001'', ''000000000000000000000002'']
   \<and> map item_id (map (mapToListItemData sample_platform) (userEntries sample_docs ''alice''))
     = [''000000000000000000000003'', ''000000000000000000000002'', ''000000000000000000000001'']
   \<and> pagination (getListWithOffsetPagination sample_platform sample_docs ''alice'' 1 10)
     = OffsetPagination 1 10 3 1 False False"
  by code_simp

section \<open>Cache keys\<close>

lemma digit_char_inj: "a < 10 \<Longrightarrow> b < 10 \<Longrightarrow> digit_char a = digit_char b \<Longrightarrow> a = b"
proof -
  assume a: "a < 10" and b: "b < 10" and eq: "digit_char a = digit_char b"
  from eq have "(of_char (char_of (48 + a) :: char) :: nat) = of_char (char_of (48 + b) :: char)"
    by (simp add: digit_char_def)
  with a b show "a = b" by (simp add: of_char_of)
qed

lemma digit_char_not_colon: "n < 10 \<Longrightarrow> digit_char n \<noteq> CHR '':''"
proof
  assume n: "n < 10" and eq: "digit_char n = CHR '':''"
  from eq have "(of_char (char_of (48 + n) :: char) :: nat) = of_char (CHR '':'')"
    by (simp add: digit_char_def)
  with n show False by (simp add: of_char_of)
qed

lemma show_nat_not_Nil: "show_nat n \<noteq> []"
  by (subst show_nat.simps) simp

lemma show_nat_no_colon: "CHR '':'' \<notin> set (show_nat n)"
proof (induction n rule: show_nat.induct)
  case (1 n)
  show ?case
  proof (cases "n < 10")
    case True
    then show ?thesis using digit_char_not_colon[of n] by (subst show_nat.simps) auto
  next
    case False
    then have "n mod 10 < 10" by simp
    with False 1 show ?thesis
      using digit_char_not_colon[of "n mod 10"] by (subst show_nat.simps) auto
  qed
qed

lemma show_nat_length: "\<not> n < 10 \<Longrightarrow> 2 \<le> length (show_nat n)"
  using show_nat_not_Nil[of "n div 10"]
  by (subst show_nat.simps) (simp add: Suc_le_eq)

lemma show_nat_inj: "show_nat m = show_nat n \<Longrightarrow> m = n"
proof (induction m arbitrary: n rule: show_nat.induct)
  case (1 m)
  show ?case
  proof (cases "m < 10")
    case m: True
    show ?thesis
    proof (cases "n < 10")
      case True
      with m 1(2) show ?thesis
        using digit_char_inj[of m n] by (simp add: show_nat.simps[of m] show_nat.simps[of n])
    next
      case False
      have "length (show_nat m) = 1" using m by (simp add: show_nat.simps[of m])
      with show_nat_length[OF False] 1(2) show ?thesis by simp
    qed
  next
    case m: False
    show ?thesis
    proof (cases "n < 10")
      case True
      have "length (show_nat n) = 1" using True by (simp add: show_nat.simps[of n])
      with show_nat_length[OF m] 1(2) show ?thesis by simp
    next
      case False
      from 1(2) m False
      have eq: "show_nat (m div 10) @ [digit_char (m mod 10)]
                = show_nat (n div 10) @ [digit_char (n mod 10)]"
        by (simp add: show_nat.simps[of m] show_nat.simps[of n])
      then have "show_nat (m div 10) = show_nat (n div 10)"
        and d: "digit_char (m mod 10) = digit_char (n mod 10)" by simp_all
      with 1(1)[OF m] have "m div 10 = n div 10" by simp
      moreover from d have "m mod 10 = n mod 10" using digit_char_inj[of "m mod 10" "n mod 10"] by simp
      ultimately show ?thesis by (metis div_mult_mod_eq)
    qed
  qed
qed

lemma split_first_occurrence:
  "c \<notin> set a \<Longrightarrow> c \<notin> set b \<Longrightarrow> a @ c # x = b @ c # y \<Longrightarrow> a = b \<and> x = y"
proof (induction a arbitrary: b)
  case Nil
  then show ?case by (cases b) auto
next
  case (Cons h a)
  then show ?case by (cases b) auto
qed

lemma split_last_colon:
  assumes "a @ CHR '':'' # x = b @ CHR '':'' # y"
    and "CHR '':'' \<notin> set x" and "CHR '':'' \<notin> set y"
  shows "a = b \<and> x = y"
proof -
  from assms(1) have "rev (a @ CHR '':'' # x) = rev (b @ CHR '':'' # y)" by simp
  then have "rev x @ CHR '':'' # rev a = rev y @ CHR '':'' # rev b" by simp
  moreover have "CHR '':'' \<notin> set (rev x)" "CHR '':'' \<notin> set (rev y)" using assms(2,3) by simp_all
  ultimately have "rev x = rev y \<and> rev a = rev b" by (rule split_first_occurrence[rotated 2])
  then show ?thesis by simp
qed

lemma split_limit:
  assumes "a @ '':limit:'' @ show_nat l1 = b @ '':limit:'' @ show_nat l2"
  shows "a = b \<and> l1 = l2"
proof -
  have "(a @ '':limit'') @ CHR '':'' # show_nat l1 = (b @ '':limit'') @ CHR '':'' # show_nat l2"
    using assms by simp
  from split_last_colon[OF this show_nat_no_colon show_nat_no_colon]
  show ?thesis using show_nat_inj by auto
qed

lemma valid_user_id_no_colon: "valid_user_id u \<Longrightarrow> CHR '':'' \<notin> set u"
  by (auto simp: valid_user_id_def list_all_iff user_id_char_def Let_def)

lemma offset_key_eq:
  "getOffsetCacheKey u pg l = ''mylist:'' @ u @ CHR '':'' # (''offset:page:'' @ show_nat pg @ '':limit:'' @ show_nat l)"
  by (simp add: getOffsetCacheKey_def)

lemma cursor_key_eq:
  "getCursorCacheKey u c l = ''mylist:'' @ u @ CHR '':'' # (''cursor:'' @ cursorPart c @ '':limit:'' @ show_nat l)"
  by (simp add: getCursorCacheKey_def)

lemma split_user:
  assumes "''mylist:'' @ u1 @ CHR '':'' # r1 = ''mylist:'' @ u2 @ CHR '':'' # r2"
    and "CHR '':'' \<notin> set u1" and "CHR '':'' \<notin> set u2"
  shows "u1 = u2 \<and> r1 = r2"
proof -
  from assms(1) have "u1 @ CHR '':'' # r1 = u2 @ CHR '':'' # r2" by simp
  from split_first_occurrence[OF assms(2,3) this] show ?thesis .
qed

text \<open>Keys of valid users are equal only for the same user, mode, limit and effective page
  or cursor part.\<close>

lemma cache_key_injective:
  assumes "valid_user_id u1" and "valid_user_id u2"
    and "getCacheKey u1 t1 pg1 c1 l1 = getCacheKey u2 t2 pg2 c2 l2"
  shows "u1 = u2 \<and> t1 = t2 \<and> l1 = l2
         \<and> (t1 = PT_offset \<longrightarrow> orDefault pg1 1 = orDefault pg2 1)
         \<and> (t1 = PT_cursor \<longrightarrow> cursorPart c1 = cursorPart c2)"
proof -
  note nc = valid_user_id_no_colon[OF assms(1)] valid_user_id_no_colon[OF assms(2)]
  have cp: "cursorPart (if truthy_str c then c else None) = cursorPart c" for c
    by (cases c) (auto simp: cursorPart_def)
  show ?thesis
  proof (cases t1; cases t2)
    assume t: "t1 = PT_offset" "t2 = PT_offset"
    with assms(3) have "''mylist:'' @ u1 @ CHR '':'' # (''offset:page:'' @ show_nat (orDefault pg1 1) @ '':limit:'' @ show_nat l1)
        = ''mylist:'' @ u2 @ CHR '':'' # (''offset:page:'' @ show_nat (orDefault pg2 1) @ '':limit:'' @ show_nat l2)"
      by (simp add: getCacheKey_def offset_key_eq)
    from split_user[OF this nc] have u: "u1 = u2"
      and r: "(''offset:page:'' @ show_nat (orDefault pg1 1)) @ '':limit:'' @ show_nat l1
            = (''offset:page:'' @ show_nat (orDefault pg2 1)) @ '':limit:'' @ show_nat l2" by simp_all
    from split_limit[OF r] have "show_nat (orDefault pg1 1) = show_nat (orDefault pg2 1)" and "l1 = l2"
      by simp_all
    with u t show ?thesis using show_nat_inj by auto
  next
    assume t: "t1 = PT_cursor" "t2 = PT_cursor"
    with assms(3) have "''mylist:'' @ u1 @ CHR '':'' # (''cursor:'' @ cursorPart c1 @ '':limit:'' @ show_nat l1)
        = ''mylist:'' @ u2 @ CHR '':'' # (''cursor:'' @ cursorPart c2 @ '':limit:'' @ show_nat l2)"
      by (simp add: getCacheKey_def cursor_key_eq cp)
    from split_user[OF this nc] have u: "u1 = u2"
      and r: "(''cursor:'' @ cursorPart c1) @ '':limit:'' @ show_nat l1
            = (''cursor:'' @ cursorPart c2) @ '':limit:'' @ show_nat l2" by simp_all
    from split_limit[OF r] have "cursorPart c1 = cursorPart c2" and "l1 = l2" by simp_all
    with u t show ?thesis by simp
  next
    assume t: "t1 = PT_offset" "t2 = PT_cursor"
    with assms(3) have "''mylist:'' @ u1 @ CHR '':'' # (''offset:page:'' @ show_nat (orDefault pg1 1) @ '':limit:'' @ show_nat l1)
        = ''mylist:'' @ u2 @ CHR '':'' # (''cursor:'' @ cursorPart c2 @ '':limit:'' @ show_nat l2)"
      by (simp add: getCacheKey_def cursor_key_eq offset_key_eq cp)
    from split_user[OF this nc] show ?thesis by simp
  next
    assume t: "t1 = PT_cursor" "t2 = PT_offset"
    with assms(3) have "''mylist:'' @ u1 @ CHR '':'' # (''cursor:'' @ cursorPart c1 @ '':limit:'' @ show_nat l1)
        = ''mylist:'' @ u2 @ CHR '':'' # (''offset:page:'' @ show_nat (orDefault pg2 1) @ '':limit:'' @ show_nat l2)"
      by (simp add: getCacheKey_def cursor_key_eq offset_key_eq cp)
    from split_user[OF this nc] show ?thesis by simp
  qed
qed


text \<open>
  C2. The key derivation is a pure function, and injective on valid user ids up to the
  cursor part (lemma \<open>cache_key_injective\<close>), but the cursor part of an absent cursor is the
  sentinel \<open>first\<close>, which a client can also send: the cursor \<open>first\<close> and no cursor give the
  same key. After the first page was cached, a request with the cursor \<open>first\<close>, which the
  database read rejects with "Invalid cursor format", is answered from the cache with the
  first page.
\<close>

theorem cache_key_first_collision:
  "getCacheKey ''alice'' PT_cursor None (Some ''first'') 10 = ''mylist:alice:cursor:first:limit:10''
   \<and> getCacheKey ''alice'' PT_cursor None None 10 = ''mylist:alice:cursor:first:limit:10''
   \<and> fetchFromDatabase sample_platform sample_docs ''alice'' PT_cursor
         \<lparr> page_param = None, limit_param = Some 10, cursor_param = Some ''first'' \<rparr> 10
       = Inl (BadRequestError ''Invalid cursor format'')
   \<and> map_sum (\<lambda>e. e) (\<lambda>r. (cacheHit r, map item_id (items r)))
         (fst (getList sample_platform
                 (snd (getList sample_platform sample_sys ''alice'' PT_cursor
                         \<lparr> page_param = None, limit_param = Some 10, cursor_param = None \<rparr>))
                 ''alice'' PT_cursor
                 \<lparr> page_param = None, limit_param = Some 10, cursor_param = Some ''first'' \<rparr>))
       = Inr (True, [''000000000000000000000003'', ''000000000000000000000002'',
                     ''000000000000000000000001''])"
  by code_simp

section \<open>The cache: invalidation and failures\<close>

lemma glob_literal:
  "\<forall>c\<in>set lit. \<not> glob_special c
     \<Longrightarrow> glob_match (lit @ ps) s = (\<exists>rest. s = lit @ rest \<and> glob_match ps rest)"
proof (induction lit arbitrary: s)
  case Nil
  then show ?case by simp
next
  case (Cons a lit)
  then have a: "a \<noteq> CHR ''*''" "a \<noteq> CHR ''?''" "a \<noteq> CHR ''[''" "a \<noteq> CHR 0x5C"
    by (auto simp: glob_special_def)
  from Cons have IH: "\<And>s. glob_match (lit @ ps) s = (\<exists>rest. s = lit @ rest \<and> glob_match ps rest)"
    by simp
  show ?case
  proof (cases s)
    case Nil
    with a show ?thesis by simp
  next
    case (Cons c ss)
    with a IH show ?thesis by auto
  qed
qed

lemma glob_star: "glob_match ''*'' s"
  by (induction s) auto

lemma glob_prefix:
  assumes "\<forall>c\<in>set lit. \<not> glob_special c"
  shows "glob_match (lit @ ''*'') s = prefix lit s"
  using glob_literal[OF assms, of "''*''" s] glob_star by (auto simp: prefix_def)

lemma user_id_char_plain: "user_id_char c \<Longrightarrow> \<not> glob_special c"
  by (auto simp: user_id_char_def glob_special_def Let_def)

lemma user_pattern_prefix:
  assumes "valid_user_id u"
  shows "glob_match (getUserCachePattern u) k = prefix (userNamespace u) k"
proof -
  have "\<forall>c\<in>set (''mylist:'' @ u @ '':''). \<not> glob_special c"
  proof
    fix c assume "c \<in> set (''mylist:'' @ u @ '':'')"
    then consider "c \<in> set ''mylist:''" | "c \<in> set u" by auto
    then show "\<not> glob_special c"
    proof cases
      case 1
      then show ?thesis by (auto simp: glob_special_def)
    next
      case 2
      with assms have "user_id_char c" by (simp add: valid_user_id_def list_all_iff)
      then show ?thesis by (rule user_id_char_plain)
    qed
  qed
  from glob_prefix[OF this, of k] show ?thesis
    by (simp add: getUserCachePattern_def userNamespace_def)
qed

lemma redis_scan_cases:
  assumes "redis_scan r c pat n = (res, r')"
  shows "kv r' = kv r
         \<and> (res = None \<or>
             res = Some (if c + n < length (kv r) then c + n else 0,
                         filter (glob_match pat) (take n (drop c (map fst (kv r))))))"
  using assms
  by (auto simp: redis_scan_def next_command_def split: list.splits bool.splits if_splits)

lemma scanLoop_kv: "scanLoop r pat c acc = (res, r') \<Longrightarrow> kv r' = kv r"
proof (induction r pat c acc arbitrary: res r' rule: scanLoop.induct)
  case (1 r pattern cursor keysToDelete)
  obtain sres r1 where sc: "redis_scan r cursor pattern 100 = (sres, r1)" by force
  note rc = redis_scan_cases[OF sc]
  show ?case
  proof (cases sres)
    case None
    with 1(2) sc rc show ?thesis by (simp add: scanLoop.simps[of r])
  next
    case (Some a)
    obtain nxt found where a: "a = (nxt, found)" by force
    show ?thesis
    proof (cases "nxt = 0")
      case True
      with 1(2) sc rc Some a show ?thesis by (simp add: scanLoop.simps[of r])
    next
      case False
      with 1(2) sc Some a have "scanLoop r1 pattern nxt (keysToDelete @ found) = (res, r')"
        by (simp add: scanLoop.simps[of r])
      from 1(1)[OF sc[symmetric] Some[THEN sym, THEN sym] a[symmetric] False this] rc
      show ?thesis by simp
    qed
  qed
qed

lemma scanLoop_keys:
  "scanLoop r pat c acc = (Some ks, r')
     \<Longrightarrow> set ks = set acc \<union> {k \<in> set (drop c (map fst (kv r))). glob_match pat k}"
proof (induction r pat c acc arbitrary: ks r' rule: scanLoop.induct)
  case (1 r pattern cursor keysToDelete)
  obtain sres r1 where sc: "redis_scan r cursor pattern 100 = (sres, r1)" by force
  note rc = redis_scan_cases[OF sc]
  let ?keys = "map fst (kv r)"
  show ?case
  proof (cases sres)
    case None
    with 1(2) sc show ?thesis by (simp add: scanLoop.simps[of r])
  next
    case (Some a)
    obtain nxt found where a: "a = (nxt, found)" by force
    from rc Some a have nxt: "nxt = (if cursor + 100 < length (kv r) then cursor + 100 else 0)"
      and found: "found = filter (glob_match pattern) (take 100 (drop cursor ?keys))" by simp_all
    show ?thesis
    proof (cases "nxt = 0")
      case True
      with nxt have "length (kv r) \<le> cursor + 100" by (simp split: if_splits)
      then have "take 100 (drop cursor ?keys) = drop cursor ?keys" by simp
      with found have "set found = {k \<in> set (drop cursor ?keys). glob_match pattern k}" by auto
      moreover from True 1(2) sc Some a have "ks = keysToDelete @ found"
        by (simp add: scanLoop.simps[of r])
      ultimately show ?thesis by auto
    next
      case False
      with nxt have n100: "nxt = cursor + 100" by (simp split: if_splits)
      from False 1(2) sc Some a have run: "scanLoop r1 pattern nxt (keysToDelete @ found) = (Some ks, r')"
        by (simp add: scanLoop.simps[of r])
      from 1(1)[OF sc[symmetric] Some[THEN sym, THEN sym] a[symmetric] False run] rc
      have "set ks = set (keysToDelete @ found)
              \<union> {k \<in> set (drop nxt ?keys). glob_match pattern k}" by simp
      moreover have "set (drop cursor ?keys)
                   = set (take 100 (drop cursor ?keys)) \<union> set (drop nxt ?keys)"
      proof -
        have "drop cursor ?keys = take 100 (drop cursor ?keys) @ drop 100 (drop cursor ?keys)"
          by (rule append_take_drop_id[symmetric])
        moreover have "drop 100 (drop cursor ?keys) = drop nxt ?keys"
          unfolding n100 drop_drop by (simp add: add.commute)
        ultimately show ?thesis by (metis set_append)
      qed
      ultimately show ?thesis using found by auto
    qed
  qed
qed

lemma redis_del_cases:
  assumes "redis_del r ks = (res, r')"
  shows "(res = None \<and> kv r' = kv r)
         \<or> (res = Some () \<and> kv r' = filter (\<lambda>e. fst e \<notin> set ks) (kv r))"
  using assms
  by (auto simp: redis_del_def next_command_def split: list.splits bool.splits if_splits)

text \<open>The sweep leaves the entries as they are or removes exactly those whose key has the
  user's prefix; when no command fails it removes them.\<close>

lemma invalidate_try_kv:
  assumes "valid_user_id u" and "invalidateUserCache_try r u = (res, r')"
  shows "(res = None \<and> kv r' = kv r)
         \<or> (res = Some ()
             \<and> kv r' = filter (\<lambda>e. \<not> prefix (userNamespace u) (fst e)) (kv r))"
proof -
  let ?pat = "getUserCachePattern u"
  obtain sres r1 where sl: "scanLoop r ?pat 0 [] = (sres, r1)" by force
  note kv1 = scanLoop_kv[OF sl]
  show ?thesis
  proof (cases sres)
    case None
    with assms(2) sl kv1 show ?thesis by (simp add: invalidateUserCache_try_def)
  next
    case (Some ks)
    from scanLoop_keys[OF sl[unfolded Some]]
    have ks: "set ks = {k \<in> set (map fst (kv r)). prefix (userNamespace u) k}"
      by (simp add: user_pattern_prefix[OF assms(1)])
    have flt: "filter (\<lambda>e. fst e \<notin> set ks) (kv r)
             = filter (\<lambda>e. \<not> prefix (userNamespace u) (fst e)) (kv r)"
      by (rule filter_cong[OF refl]) (auto simp: ks)
    show ?thesis
    proof (cases "length ks > 0")
      case True
      with assms(2) sl Some have "redis_del r1 ks = (res, r')"
        by (simp add: invalidateUserCache_try_def)
      from redis_del_cases[OF this] kv1 flt show ?thesis by auto
    next
      case False
      then have "ks = []" by simp
      with ks have "filter (\<lambda>e. \<not> prefix (userNamespace u) (fst e)) (kv r) = kv r"
        by (auto simp: filter_id_conv)
      moreover from False assms(2) sl Some have "res = Some ()" "r' = r1"
        by (simp_all add: invalidateUserCache_try_def)
      ultimately show ?thesis using kv1 by simp
    qed
  qed
qed

lemma map_of_filter_key:
  "map_of (filter (\<lambda>e. Q (fst e)) xs) k = (if Q k then map_of xs k else None)"
  by (induction xs) auto

lemma cache_key_shape:
  "\<exists>rest. getCacheKey v ty pg c lmt = ''mylist:'' @ v @ CHR '':'' # rest"
  by (cases ty) (auto simp: getCacheKey_def offset_key_eq cursor_key_eq)

lemma own_key_prefix: "prefix (userNamespace u) (getCacheKey u ty pg c lmt)"
proof -
  obtain rest where "getCacheKey u ty pg c lmt = ''mylist:'' @ u @ CHR '':'' # rest"
    using cache_key_shape by blast
  then show ?thesis by (simp add: prefix_def userNamespace_def)
qed

lemma other_key_no_prefix:
  assumes "valid_user_id u" and "valid_user_id v" and "u \<noteq> v"
  shows "\<not> prefix (userNamespace u) (getCacheKey v ty pg c lmt)"
proof
  assume "prefix (userNamespace u) (getCacheKey v ty pg c lmt)"
  then obtain z where z: "getCacheKey v ty pg c lmt = (''mylist:'' @ u @ '':'') @ z"
    by (auto simp: prefix_def userNamespace_def)
  obtain rest where "getCacheKey v ty pg c lmt = ''mylist:'' @ v @ CHR '':'' # rest"
    using cache_key_shape by blast
  with z have "''mylist:'' @ v @ CHR '':'' # rest = ''mylist:'' @ u @ CHR '':'' # z" by simp
  from split_user[OF this valid_user_id_no_colon[OF assms(2)] valid_user_id_no_colon[OF assms(1)]]
  show False using assms(3) by simp
qed

lemma invalidate_kv:
  assumes "valid_user_id u"
  shows "kv (invalidateUserCache r u) = kv r
         \<or> kv (invalidateUserCache r u)
             = filter (\<lambda>e. \<not> prefix (userNamespace u) (fst e)) (kv r)"
proof -
  obtain res r' where t: "invalidateUserCache_try r u = (res, r')" by force
  from invalidate_try_kv[OF assms t] t show ?thesis
    by (auto simp: invalidateUserCache_def)
qed

lemma invalidate_keeps_others:
  assumes "valid_user_id u" and "\<not> prefix (userNamespace u) k"
  shows "map_of (kv (invalidateUserCache r u)) k = map_of (kv r) k"
  using invalidate_kv[OF assms(1), of r] assms(2)
  by (auto simp: map_of_filter_key[where Q = "\<lambda>k. \<not> prefix (userNamespace u) k"])

lemma addToList_redis:
  "redis (snd (addToList p t0 now newId s u cid ct)) = redis s
   \<or> redis (snd (addToList p t0 now newId s u cid ct)) = invalidateUserCache (redis s) u"
  by (auto simp: addToList_def Let_def split: option.splits sum.splits)

lemma removeFromList_redis:
  "redis (snd (removeFromList s u cid)) = redis s
   \<or> redis (snd (removeFromList s u cid)) = invalidateUserCache (redis s) u"
  by (auto simp: removeFromList_def split: prod.splits)

text \<open>
  C10. For a user \<open>u\<close> the auth middleware accepts, invalidation deletes only entries whose
  key starts with \<open>mylist:u:\<close>: every key without that prefix keeps its entry, nothing is
  added, and the cached pages of every other valid user \<open>v\<close> are the same after \<open>u\<close>'s
  invalidation, \<open>addToList\<close> and \<open>removeFromList\<close>, whether or not a Redis command fails.
  With no matching key the cache is unchanged.
\<close>

theorem invalidation_frame:
  assumes "valid_user_id u" and "valid_user_id v" and "u \<noteq> v"
  shows "map_of (kv (invalidateUserCache r u)) (getCacheKey v ty pg c lmt)
           = map_of (kv r) (getCacheKey v ty pg c lmt)
         \<and> map_of (kv (redis (snd (addToList p t0 now newId s u cid ct)))) (getCacheKey v ty pg c lmt)
           = map_of (kv (redis s)) (getCacheKey v ty pg c lmt)
         \<and> map_of (kv (redis (snd (removeFromList s u cid)))) (getCacheKey v ty pg c lmt)
           = map_of (kv (redis s)) (getCacheKey v ty pg c lmt)
         \<and> (\<forall>k. \<not> prefix (userNamespace u) k
               \<longrightarrow> map_of (kv (invalidateUserCache r u)) k = map_of (kv r) k)
         \<and> set (kv (invalidateUserCache r u)) \<subseteq> set (kv r)
         \<and> ((\<forall>e\<in>set (kv r). \<not> prefix (userNamespace u) (fst e))
               \<longrightarrow> kv (invalidateUserCache r u) = kv r)"
proof -
  note np = other_key_no_prefix[OF assms, of ty pg c lmt]
  have a: "map_of (kv (invalidateUserCache r u)) (getCacheKey v ty pg c lmt)
           = map_of (kv r) (getCacheKey v ty pg c lmt)" for r
    by (rule invalidate_keeps_others[OF assms(1) np])
  have b: "map_of (kv (redis (snd (addToList p t0 now newId s u cid ct)))) (getCacheKey v ty pg c lmt)
           = map_of (kv (redis s)) (getCacheKey v ty pg c lmt)"
    using addToList_redis[of p t0 now newId s u cid ct] a[of "redis s"] by auto
  have c: "map_of (kv (redis (snd (removeFromList s u cid)))) (getCacheKey v ty pg c lmt)
           = map_of (kv (redis s)) (getCacheKey v ty pg c lmt)"
    using removeFromList_redis[of s u cid] a[of "redis s"] by auto
  have d: "\<forall>k. \<not> prefix (userNamespace u) k
               \<longrightarrow> map_of (kv (invalidateUserCache r u)) k = map_of (kv r) k"
    using invalidate_keeps_others[OF assms(1)] by blast
  have e: "set (kv (invalidateUserCache r u)) \<subseteq> set (kv r)"
    using invalidate_kv[OF assms(1), of r] by auto
  have f: "(\<forall>e\<in>set (kv r). \<not> prefix (userNamespace u) (fst e))
               \<longrightarrow> kv (invalidateUserCache r u) = kv r"
    using invalidate_kv[OF assms(1), of r] by (auto simp: filter_id_conv)
  from a b c d e f show ?thesis by blast
qed










theorem invalidation_frame_witness:
  "valid_user_id ''alice'' \<and> valid_user_id ''bob'' \<and> ''alice'' \<noteq> ''bob''
   \<and> map fst (kv (redis sample_cached_sys))
       = [''mylist:bob:offset:page:1:limit:10'', ''mylist:alice:offset:page:1:limit:10'']
   \<and> map fst (kv (invalidateUserCache (redis sample_cached_sys) ''alice''))
       = [''mylist:bob:offset:page:1:limit:10'']
   \<and> map_of (kv (invalidateUserCache (redis sample_cached_sys) ''alice''))
         (getCacheKey ''bob'' PT_offset None None 10)
       = map_of (kv (redis sample_cached_sys)) (getCacheKey ''bob'' PT_offset None None 10)
   \<and> kv (invalidateUserCache (redis sample_sys) ''alice'') = kv (redis sample_sys)"
proof -
  have h1: "valid_user_id ''alice''" by code_simp
  have h2: "valid_user_id ''bob''" by code_simp
  have h3: "''alice'' \<noteq> ''bob''" by simp
  have k0: "map fst (kv (redis sample_cached_sys))
       = [''mylist:bob:offset:page:1:limit:10'', ''mylist:alice:offset:page:1:limit:10'']"
    by code_simp
  have k1: "map fst (kv (invalidateUserCache (redis sample_cached_sys) ''alice''))
       = [''mylist:bob:offset:page:1:limit:10'']"
    by code_simp
  have none: "\<forall>e\<in>set (kv (redis sample_sys)). \<not> prefix (userNamespace ''alice'') (fst e)"
    by (simp add: sample_sys_def)
  note inst = invalidation_frame[OF h1 h2 h3, of "redis sample_cached_sys" PT_offset None None 10]
  note inst0 = invalidation_frame[OF h1 h2 h3, of "redis sample_sys"]
  from inst inst0 none h1 h2 h3 k0 k1 show ?thesis by blast
qed


section \<open>The uniqueness of entries, sequentially and under concurrent adds\<close>

lemma find_None_iff': "(find P xs = None) = (\<forall>x\<in>set xs. \<not> P x)"
  by (induction xs) auto

lemma addToList_myList:
  "myList (snd (addToList p t0 now newId s u cid ct)) = myList s
   \<or> (\<exists>d. myList (snd (addToList p t0 now newId s u cid ct)) = myList s @ [d]
          \<and> pairOf d \<notin> pairOf ` set (myList s) \<and> doc_id d \<notin> doc_id ` set (myList s))"
  by (auto simp: addToList_def Let_def create_def pairOf_def list_ex_iff image_iff
      split: option.splits sum.splits if_splits)

lemma distinct_map_remove1: "distinct (map f xs) \<Longrightarrow> distinct (map f (remove1 x xs))"
proof (induction xs)
  case Nil
  then show ?case by simp
next
  case (Cons a xs)
  then show ?case using set_remove1_subset[of x xs] by (auto simp: image_iff)
qed

lemma removeFromList_myList:
  "myList (snd (removeFromList s u cid)) = myList s
   \<or> (\<exists>d. myList (snd (removeFromList s u cid)) = remove1 d (myList s))"
  by (auto simp: removeFromList_def deleteOne_def split: option.splits)

lemma getList_myList: "myList (snd (getList p s u ty params)) = myList s"
  by (auto simp: getList_def Let_def split: prod.splits option.splits sum.splits)

lemma reachable_unique:
  "reachable p s \<Longrightarrow> distinct (map pairOf (myList s)) \<and> distinct (map doc_id (myList s))"
proof (induction rule: reachable.induct)
  case (initial s)
  then show ?case by simp
next
  case (add s t0 now newId u cid ct)
  from addToList_myList[of p t0 now newId s u cid ct] add.IH show ?case by auto
next
  case (remove s u cid)
  from removeFromList_myList[of s u cid] remove.IH show ?case
    by (auto intro: distinct_map_remove1)
next
  case (list s u ty params)
  then show ?case by (simp add: getList_myList)
next
  case (cache s r)
  then show ?case by simp
qed

lemma addToList_existing:
  assumes "\<exists>d\<in>set (myList s). user_id d = u \<and> content_id d = cid"
  shows "addToList p t0 now newId s u cid ct = (Inl (ConflictError ITEM_ALREADY_IN_LIST), s)"
proof -
  from assms have "findOne (myList s) u cid \<noteq> None"
    by (auto simp: findOne_def find_None_iff')
  then show ?thesis by (auto simp: addToList_def)
qed

text \<open>
  C4. In every state the service reaches from an empty collection there is at most one
  entry per (\<open>user_id\<close>, \<open>content_id\<close>) pair, and \<open>addToList\<close>, \<open>removeFromList\<close> and
  \<open>getList\<close> keep it so; an \<open>addToList\<close> for a pair that has an entry fails with the
  ConflictError "Item already exists in list" (status 409) and leaves the state as it was.
\<close>

theorem store_unique_pairs:
  assumes "reachable p s"
  shows "distinct (map pairOf (myList s))
         \<and> ((\<exists>d\<in>set (myList s). user_id d = u \<and> content_id d = cid) \<longrightarrow>
              addToList p t0 now newId s u cid ct = (Inl (ConflictError ITEM_ALREADY_IN_LIST), s))
         \<and> distinct (map pairOf (myList (snd (addToList p t0 now newId s u cid ct))))
         \<and> distinct (map pairOf (myList (snd (removeFromList s u cid))))
         \<and> distinct (map pairOf (myList (snd (getList p s u ty params))))
         \<and> errorHandler (ConflictError ITEM_ALREADY_IN_LIST) = (409, ''Item already exists in list'')"
proof -
  from reachable_unique[OF assms] have a: "distinct (map pairOf (myList s))" by simp
  have b: "(\<exists>d\<in>set (myList s). user_id d = u \<and> content_id d = cid) \<longrightarrow>
              addToList p t0 now newId s u cid ct = (Inl (ConflictError ITEM_ALREADY_IN_LIST), s)"
    using addToList_existing by blast
  have c: "distinct (map pairOf (myList (snd (addToList p t0 now newId s u cid ct))))"
    using reachable_unique[OF reachable.add[OF assms]] by simp
  have d: "distinct (map pairOf (myList (snd (removeFromList s u cid))))"
    using reachable_unique[OF reachable.remove[OF assms]] by simp
  have e: "distinct (map pairOf (myList (snd (getList p s u ty params))))"
    using reachable_unique[OF reachable.list[OF assms]] by simp
  have f: "errorHandler (ConflictError ITEM_ALREADY_IN_LIST) = (409, ''Item already exists in list'')"
    by (simp add: ITEM_ALREADY_IN_LIST_def)
  from a b c d e f show ?thesis by blast
qed

theorem store_unique_pairs_witness:
  "reachable sample_platform
     (snd (addToList sample_platform 1704283200000 1704283200000 9 empty_sys
             ''alice'' ''000000000000000000000008'' CT_movie))
   \<and> map pairOf (myList (snd (addToList sample_platform 1704283200000 1704283200000 9 empty_sys
             ''alice'' ''000000000000000000000008'' CT_movie)))
       = [(''alice'', ''000000000000000000000008'')]
   \<and> addToList sample_platform 1704283200001 1704283200001 10
        (snd (addToList sample_platform 1704283200000 1704283200000 9 empty_sys
                ''alice'' ''000000000000000000000008'' CT_movie))
        ''alice'' ''000000000000000000000008'' CT_movie
       = (Inl (ConflictError ''Item already exists in list''),
          snd (addToList sample_platform 1704283200000 1704283200000 9 empty_sys
                 ''alice'' ''000000000000000000000008'' CT_movie))"
proof -
  let ?s1 = "snd (addToList sample_platform 1704283200000 1704283200000 9 empty_sys
                ''alice'' ''000000000000000000000008'' CT_movie)"
  have "myList empty_sys = []" by (simp add: empty_sys_def)
  then have r: "reachable sample_platform ?s1"
    by (intro reachable.add reachable.initial)
  have m: "map pairOf (myList ?s1) = [(''alice'', ''000000000000000000000008'')]"
    by code_simp
  then have ex: "\<exists>d\<in>set (myList ?s1). user_id d = ''alice'' \<and> content_id d = ''000000000000000000000008''"
    by (cases "myList ?s1") (auto simp: pairOf_def)
  from store_unique_pairs[OF r, where u = "''alice''" and cid = "''000000000000000000000008''"
      and ?t0.0 = 1704283200001 and now = 1704283200001 and newId = 10 and ct = CT_movie] ex r m
  show ?thesis by (simp add: ITEM_ALREADY_IN_LIST_def)
qed

lemma addToList_split:
  "addToList p t0 now newId s u cid ct =
     (case addToList_check p t0 s u cid ct of
        Inl e \<Rightarrow> (Inl e, s)
      | Inr contentData \<Rightarrow> addToList_write p now newId s u cid ct contentData)"
  by (auto simp: addToList_def addToList_check_def addToList_write_def Let_def
      split: option.splits sum.splits)

lemma filter_update_length:
  "i < length xs \<Longrightarrow>
     length (filter P (xs[i := x])) + (if P (xs ! i) then 1 else 0)
       = length (filter P xs) + (if P x then 1 else 0)"
proof (induction xs arbitrary: i)
  case Nil
  then show ?case by simp
next
  case (Cons a xs)
  then show ?case by (cases i) auto
qed

lemma fetchContentData_catalogue:
  "movies s = movies s0 \<Longrightarrow> tvShows s = tvShows s0
     \<Longrightarrow> fetchContentData p now s cid ct = fetchContentData p now s0 cid ct"
  by (cases ct) (simp_all add: fetchContentData_def)

lemma findOne_hasPair: "(findOne ds u cid = None) = (filter (hasPair u cid) ds = [])"
  by (auto simp: findOne_def hasPair_def find_None_iff' filter_empty_conv)

lemma addToList_write_cases:
  assumes "addToList_write p now newId s u cid ct cd = (res, s')"
  shows "(res = Inl MongoDuplicateKey \<and> s' = s
          \<and> (filter (hasPair u cid) (myList s) \<noteq> [] \<or> newId \<in> doc_id ` set (myList s)))
         \<or> ((\<exists>item. res = Inr item) \<and> filter (hasPair u cid) (myList s) = []
             \<and> (\<exists>d. hasPair u cid d \<and> myList s' = myList s @ [d])
             \<and> movies s' = movies s \<and> tvShows s' = tvShows s)"
  using assms
  by (auto simp: addToList_write_def Let_def create_def list_ex_iff hasPair_def filter_empty_conv
      split: if_splits)

lemma invariant_initial:
  assumes "list_all (\<lambda>c. phase c = Started) cs0"
    and "filter (hasPair u cid) (myList s0) = []"
  shows "addInvariant u cid s0 cs0 s0 cs0"
proof -
  from assms(1) have "filter succeeded cs0 = []"
    by (auto simp: filter_empty_conv list_all_iff succeeded_def)
  with assms show ?thesis by (auto simp: addInvariant_def list_all_iff)
qed

lemma invariant_step:
  assumes inv: "addInvariant u cid s0 cs0 s cs"
    and content: "list_all (\<lambda>c. \<exists>cd. fetchContentData p (lookupClock c) s0 cid ct = Inr cd) cs0"
    and fresh: "list_all (\<lambda>c. freshId c \<notin> doc_id ` set (myList s0)) cs0"
    and step: "concurrentAdd p u cid ct (s, cs) (s', cs')"
  shows "addInvariant u cid s0 cs0 s' cs'"
  using step
proof (cases rule: concurrentAdd.cases)
  case (check_step i)
  let ?c = "cs ! i"
  let ?X = "case addToList_check p (lookupClock ?c) s u cid ct of
              Inl e \<Rightarrow> Finished (Inl e) | Inr contentData \<Rightarrow> Checked contentData"
  let ?c' = "?c \<lparr> phase := ?X \<rparr>"
  from check_step have i: "i < length cs" and st: "phase ?c = Started"
    and s': "s' = s" and cs': "cs' = cs[i := ?c']" by simp_all
  from inv have len: "length cs = length cs0"
    unfolding addInvariant_def by (metis length_map)
  from inv i len have ck: "lookupClock ?c = lookupClock (cs0 ! i)"
    unfolding addInvariant_def by (metis nth_map)
  from content i len obtain cd where cd: "fetchContentData p (lookupClock (cs0 ! i)) s0 cid ct = Inr cd"
    by (auto simp: list_all_length)
  from inv have cat: "movies s = movies s0" "tvShows s = tvShows s0"
    by (simp_all add: addInvariant_def)
  have X: "(?X = Finished (Inl (ConflictError ITEM_ALREADY_IN_LIST))
              \<and> filter (hasPair u cid) (myList s) \<noteq> [])
           \<or> ?X = Checked cd"
  proof (cases "findOne (myList s) u cid")
    case None
    then show ?thesis
      using fetchContentData_catalogue[OF cat, of p "lookupClock ?c" cid ct] ck cd
      by (simp add: addToList_check_def)
  next
    case (Some a)
    then have "filter (hasPair u cid) (myList s) \<noteq> []"
      using findOne_hasPair[of "myList s" u cid] by simp
    with Some show ?thesis by (simp add: addToList_check_def)
  qed
  have ns: "\<not> succeeded ?c" "\<not> succeeded ?c'"
    using st X by (auto simp: succeeded_def)
  have m1: "map lookupClock cs' = map lookupClock cs" "map clock cs' = map clock cs"
    "map freshId cs' = map freshId cs"
    using i by (simp_all add: cs' map_update list_update_same_conv)
  have cnt: "length (filter succeeded cs') = length (filter succeeded cs)"
    using filter_update_length[OF i, of succeeded ?c'] ns by (simp add: cs')
  have fail: "\<forall>c\<in>set cs'. (\<exists>e. phase c = Finished (Inl e))
            \<longrightarrow> conflicted c \<and> filter (hasPair u cid) (myList s) \<noteq> []"
  proof (intro ballI impI)
    fix c assume c: "c \<in> set cs'" and f: "\<exists>e. phase c = Finished (Inl e)"
    from c have "c = ?c' \<or> c \<in> set cs"
      unfolding cs' using set_update_subset_insert[of cs i ?c'] by auto
    then show "conflicted c \<and> filter (hasPair u cid) (myList s) \<noteq> []"
    proof
      assume "c = ?c'"
      with f X show ?thesis by (auto simp: conflicted_def)
    next
      assume "c \<in> set cs"
      with inv f show ?thesis by (auto simp: addInvariant_def)
    qed
  qed
  from inv m1 cnt fail show ?thesis
    by (simp add: addInvariant_def s')
next
  case (write_step i contentData res)
  let ?c = "cs ! i"
  let ?c' = "?c \<lparr> phase := Finished res \<rparr>"
  from write_step have i: "i < length cs" and st: "phase ?c = Checked contentData"
    and w: "addToList_write p (clock ?c) (freshId ?c) s u cid ct contentData = (res, s')"
    and cs': "cs' = cs[i := ?c']" by simp_all
  from inv have len: "length cs = length cs0"
    unfolding addInvariant_def by (metis length_map)
  from inv i len have fid: "freshId ?c = freshId (cs0 ! i)"
    unfolding addInvariant_def by (metis nth_map)
  from fresh i len have fr: "freshId (cs0 ! i) \<notin> doc_id ` set (myList s0)"
    by (auto simp: list_all_length)
  have m1: "map lookupClock cs' = map lookupClock cs" "map clock cs' = map clock cs"
    "map freshId cs' = map freshId cs"
    using i by (simp_all add: cs' map_update list_update_same_conv)
  have ns: "\<not> succeeded ?c" using st by (simp add: succeeded_def)
  have old: "\<And>c. c \<in> set cs' \<Longrightarrow> c = ?c' \<or> c \<in> set cs"
    unfolding cs' using set_update_subset_insert[of cs i ?c'] by auto
  from addToList_write_cases[OF w] consider
    (dup) "res = Inl MongoDuplicateKey" "s' = s"
      "filter (hasPair u cid) (myList s) \<noteq> [] \<or> freshId ?c \<in> doc_id ` set (myList s)"
  | (ok) item d where "res = Inr item" "filter (hasPair u cid) (myList s) = []"
      "hasPair u cid d" "myList s' = myList s @ [d]"
      "movies s' = movies s" "tvShows s' = tvShows s"
    by blast
  then show ?thesis
  proof cases
    case dup
    then have res: "res = Inl MongoDuplicateKey" and same: "s' = s"
      and why: "filter (hasPair u cid) (myList s) \<noteq> [] \<or> freshId ?c \<in> doc_id ` set (myList s)"
      by simp_all
    have present: "filter (hasPair u cid) (myList s) \<noteq> []"
    proof (rule ccontr)
      assume "\<not> filter (hasPair u cid) (myList s) \<noteq> []"
      then have e: "filter (hasPair u cid) (myList s) = []" by simp
      with inv have "myList s = myList s0" by (simp add: addInvariant_def)
      with why e fid fr show False by simp
    qed
    have ns': "\<not> succeeded ?c'" using res by (simp add: succeeded_def)
    have cnt: "length (filter succeeded cs') = length (filter succeeded cs)"
      using filter_update_length[OF i, of succeeded ?c'] ns ns' by (simp add: cs')
    have fail: "\<forall>c\<in>set cs'. (\<exists>e. phase c = Finished (Inl e))
            \<longrightarrow> conflicted c \<and> filter (hasPair u cid) (myList s) \<noteq> []"
    proof (intro ballI impI)
      fix c assume c: "c \<in> set cs'" and f: "\<exists>e. phase c = Finished (Inl e)"
      from old[OF c] show "conflicted c \<and> filter (hasPair u cid) (myList s) \<noteq> []"
      proof
        assume "c = ?c'"
        with res present show ?thesis by (simp add: conflicted_def)
      next
        assume "c \<in> set cs"
        with inv f show ?thesis by (auto simp: addInvariant_def)
      qed
    qed
    from inv m1 cnt fail show ?thesis by (simp add: addInvariant_def same)
  next
    case (ok item d)
    then have res: "res = Inr item" and absent: "filter (hasPair u cid) (myList s) = []"
      and d: "hasPair u cid d" "myList s' = myList s @ [d]"
      and cat: "movies s' = movies s" "tvShows s' = tvShows s"
      by simp_all
    from inv absent have zero: "length (filter succeeded cs) = 0"
      by (simp add: addInvariant_def)
    have s'c: "succeeded ?c'" using res by (simp add: succeeded_def)
    have cnt: "length (filter succeeded cs') = 1"
      using filter_update_length[OF i, of succeeded ?c'] ns s'c zero by (simp add: cs')
    have pairs: "length (filter (hasPair u cid) (myList s')) = 1"
      using absent d by simp
    have nofail: "\<forall>c\<in>set cs. \<not> (\<exists>e. phase c = Finished (Inl e))"
      using inv absent by (auto simp: addInvariant_def)
    have fail: "\<forall>c\<in>set cs'. (\<exists>e. phase c = Finished (Inl e))
            \<longrightarrow> conflicted c \<and> filter (hasPair u cid) (myList s') \<noteq> []"
    proof (intro ballI impI)
      fix c assume c: "c \<in> set cs'" and f: "\<exists>e. phase c = Finished (Inl e)"
      from old[OF c] f res nofail have False by auto
      then show "conflicted c \<and> filter (hasPair u cid) (myList s') \<noteq> []" ..
    qed
    have ne: "filter (hasPair u cid) (myList s') \<noteq> []" using d by simp
    from inv m1 cnt pairs fail ne cat show ?thesis by (simp add: addInvariant_def)
  qed
qed

lemma invariant_run:
  assumes "rtranclp (concurrentAdd p u cid ct) (s0, cs0) (s, cs)"
    and "list_all (\<lambda>c. phase c = Started) cs0"
    and "filter (hasPair u cid) (myList s0) = []"
    and "list_all (\<lambda>c. \<exists>cd. fetchContentData p (lookupClock c) s0 cid ct = Inr cd) cs0"
    and "list_all (\<lambda>c. freshId c \<notin> doc_id ` set (myList s0)) cs0"
  shows "addInvariant u cid s0 cs0 s cs"
  using assms(1)
proof (induction rule: rtranclp_induct2)
  case refl
  show ?case by (rule invariant_initial[OF assms(2,3)])
next
  case (step s1 cs1 s2 cs2)
  show ?case by (rule invariant_step[OF step.IH assms(4,5) step.hyps(2)])
qed

lemma sum_update:
  fixes f :: "'a \<Rightarrow> nat"
  shows "i < length xs \<Longrightarrow>
     sum_list (map f (xs[i := x])) + f (xs ! i) = sum_list (map f xs) + f x"
proof (induction xs arbitrary: i)
  case Nil
  then show ?case by simp
next
  case (Cons a xs)
  then show ?case by (cases i) auto
qed

lemma concurrentAdd_progress:
  assumes "\<not> list_all finished cs"
  shows "\<exists>s' cs'. concurrentAdd p u cid ct (s, cs) (s', cs')
           \<and> sum_list (map remaining cs') < sum_list (map remaining cs)"
proof -
  from assms obtain i where i: "i < length cs" and nf: "\<not> finished (cs ! i)"
    by (auto simp: list_all_length)
  show ?thesis
  proof (cases "phase (cs ! i)")
    case Started
    let ?c' = "(cs ! i) \<lparr> phase :=
                 (case addToList_check p (lookupClock (cs ! i)) s u cid ct of
                    Inl e \<Rightarrow> Finished (Inl e)
                  | Inr contentData \<Rightarrow> Checked contentData) \<rparr>"
    have st: "concurrentAdd p u cid ct (s, cs) (s, cs[i := ?c'])"
      by (rule concurrentAdd.check_step[OF i Started])
    have "remaining ?c' < remaining (cs ! i)"
      using Started by (auto simp: remaining_def split: sum.splits)
    with sum_update[OF i, of remaining ?c'] have
      "sum_list (map remaining (cs[i := ?c'])) < sum_list (map remaining cs)" by linarith
    with st show ?thesis by blast
  next
    case (Checked cd)
    obtain res s' where w:
      "addToList_write p (clock (cs ! i)) (freshId (cs ! i)) s u cid ct cd = (res, s')" by force
    let ?c' = "(cs ! i) \<lparr> phase := Finished res \<rparr>"
    have st: "concurrentAdd p u cid ct (s, cs) (s', cs[i := ?c'])"
      by (rule concurrentAdd.write_step[OF i Checked w])
    have "remaining ?c' < remaining (cs ! i)"
      using Checked by (simp add: remaining_def)
    with sum_update[OF i, of remaining ?c'] have
      "sum_list (map remaining (cs[i := ?c'])) < sum_list (map remaining cs)" by linarith
    with st show ?thesis by blast
  next
    case (Finished res)
    with nf show ?thesis by (simp add: finished_def)
  qed
qed

lemma concurrentAdd_completes:
  "\<exists>s' cs'. rtranclp (concurrentAdd p u cid ct) (s, cs) (s', cs') \<and> list_all finished cs'"
proof (induction "sum_list (map remaining cs)" arbitrary: s cs rule: less_induct)
  case less
  show ?case
  proof (cases "list_all finished cs")
    case True
    then show ?thesis by blast
  next
    case False
    from concurrentAdd_progress[OF False, of p u cid ct s] obtain s1 cs1
      where st: "concurrentAdd p u cid ct (s, cs) (s1, cs1)"
        and lt: "sum_list (map remaining cs1) < sum_list (map remaining cs)" by blast
    from less[OF lt, of s1] obtain s' cs'
      where "rtranclp (concurrentAdd p u cid ct) (s1, cs1) (s', cs')" "list_all finished cs'"
      by blast
    with st show ?thesis by (meson converse_rtranclp_into_rtranclp)
  qed
qed

text \<open>
  C9. N calls of \<open>addToList\<close> for the same user and content run concurrently, in any
  interleaving of their store operations, from a state without an entry of the pair, with
  the content in the catalogue and ObjectIds that are new to the collection. Every run can
  be completed, and when all calls have finished exactly one has succeeded, the other N - 1
  have failed with status 409 (the ConflictError of the check, or the duplicate key error of
  the insert, which \<open>errorHandler\<close> maps to 409), and the collection holds exactly one entry of
  the pair.
\<close>

theorem concurrent_duplicate_adds:
  assumes "rtranclp (concurrentAdd p u cid ct) (s0, cs0) (s, cs)"
    and "cs0 \<noteq> []"
    and "list_all (\<lambda>c. phase c = Started) cs0"
    and "filter (hasPair u cid) (myList s0) = []"
    and "list_all (\<lambda>c. \<exists>cd. fetchContentData p (lookupClock c) s0 cid ct = Inr cd) cs0"
    and "list_all (\<lambda>c. freshId c \<notin> doc_id ` set (myList s0)) cs0"
    and "list_all finished cs"
  shows "length cs = length cs0
         \<and> length (filter succeeded cs) = 1
         \<and> length (filter conflicted cs) = length cs0 - 1
         \<and> length (filter (hasPair u cid) (myList s)) = 1
         \<and> (\<exists>s' cs'. rtranclp (concurrentAdd p u cid ct) (s0, cs0) (s', cs')
                \<and> list_all finished cs')"
proof -
  note inv = invariant_run[OF assms(1,3,4,5,6), unfolded addInvariant_def]
  from inv have len: "length cs = length cs0" by (metis length_map)
  from inv have pairs: "length (filter (hasPair u cid) (myList s)) = length (filter succeeded cs)"
    and le1: "length (filter succeeded cs) \<le> 1"
    and fail: "\<forall>c\<in>set cs. (\<exists>e. phase c = Finished (Inl e))
            \<longrightarrow> conflicted c \<and> filter (hasPair u cid) (myList s) \<noteq> []"
    by simp_all
  have fin: "\<And>c. c \<in> set cs \<Longrightarrow> succeeded c \<or> (\<exists>e. phase c = Finished (Inl e))"
  proof -
    fix c assume "c \<in> set cs"
    with assms(7) have "finished c" by (simp add: list_all_iff)
    then show "succeeded c \<or> (\<exists>e. phase c = Finished (Inl e))"
      by (auto simp: finished_def succeeded_def split: phase.splits sum.splits)
  qed
  from assms(2) len obtain c0 where c0: "c0 \<in> set cs" by (cases cs) auto
  have one: "length (filter succeeded cs) = 1"
  proof (rule ccontr)
    assume "length (filter succeeded cs) \<noteq> 1"
    with le1 have z: "length (filter succeeded cs) = 0" by linarith
    then have "filter succeeded cs = []" by simp
    then have "\<not> succeeded c0" using c0 by (auto simp: filter_empty_conv)
    with fin[OF c0] fail c0 have "filter (hasPair u cid) (myList s) \<noteq> []" by blast
    with pairs z show False by simp
  qed
  have "filter conflicted cs = filter (\<lambda>c. \<not> succeeded c) cs"
  proof (rule filter_cong[OF refl])
    fix c assume c: "c \<in> set cs"
    show "conflicted c = (\<not> succeeded c)"
    proof
      assume "conflicted c"
      then show "\<not> succeeded c"
        by (auto simp: conflicted_def succeeded_def split: phase.splits sum.splits)
    next
      assume "\<not> succeeded c"
      with fin[OF c] fail c show "conflicted c" by blast
    qed
  qed
  then have "length (filter conflicted cs) = length cs - length (filter succeeded cs)"
    using sum_length_filter_compl[of succeeded cs] by simp
  with one len have conf: "length (filter conflicted cs) = length cs0 - 1" by simp
  from len one conf pairs concurrentAdd_completes[of p u cid ct s0 cs0]
  show ?thesis by simp
qed

theorem concurrent_duplicate_adds_witness:
  "rtranclp (concurrentAdd sample_platform ''alice'' ''000000000000000000000008'' CT_movie)
     (sample_sys, [sample_call 1704283200000 9 Started, sample_call 1704283200001 10 Started])
     (sample_added_sys,
      [sample_call 1704283200000 9
         (Finished (Inr (mapToListItemData sample_platform
            (sample_doc 9 ''alice'' ''000000000000000000000008'' 1704283200000)))),
       sample_call 1704283200001 10 (Finished (Inl MongoDuplicateKey))])
   \<and> length (filter succeeded
        [sample_call 1704283200000 9
           (Finished (Inr (mapToListItemData sample_platform
              (sample_doc 9 ''alice'' ''000000000000000000000008'' 1704283200000)))),
         sample_call 1704283200001 10 (Finished (Inl MongoDuplicateKey))]) = 1
   \<and> length (filter conflicted
        [sample_call 1704283200000 9
           (Finished (Inr (mapToListItemData sample_platform
              (sample_doc 9 ''alice'' ''000000000000000000000008'' 1704283200000)))),
         sample_call 1704283200001 10 (Finished (Inl MongoDuplicateKey))]) = 1
   \<and> length (filter (hasPair ''alice'' ''000000000000000000000008'') (myList sample_added_sys)) = 1"
proof -
  let ?P = sample_platform
  let ?u = "''alice''"
  let ?c = "''000000000000000000000008''"
  let ?t1 = "1704283200000 :: int"
  let ?t2 = "1704283200001 :: int"
  let ?item = "mapToListItemData ?P (sample_doc 9 ?u ?c ?t1)"
  let ?cs0 = "[sample_call ?t1 9 Started, sample_call ?t2 10 Started]"
  let ?cs1 = "[sample_call ?t1 9 (Checked sample_content), sample_call ?t2 10 Started]"
  let ?cs2 = "[sample_call ?t1 9 (Checked sample_content), sample_call ?t2 10 (Checked sample_content)]"
  let ?cs3 = "[sample_call ?t1 9 (Finished (Inr ?item)), sample_call ?t2 10 (Checked sample_content)]"
  let ?cs4 = "[sample_call ?t1 9 (Finished (Inr ?item)), sample_call ?t2 10 (Finished (Inl MongoDuplicateKey))]"
  let ?step = "concurrentAdd ?P ?u ?c CT_movie"
  have chk1: "addToList_check ?P ?t1 sample_sys ?u ?c CT_movie = Inr sample_content" by code_simp
  have chk2: "addToList_check ?P ?t2 sample_sys ?u ?c CT_movie = Inr sample_content" by code_simp
  have w1: "addToList_write ?P ?t1 9 sample_sys ?u ?c CT_movie sample_content
              = (Inr ?item, sample_added_sys)"
    by (simp add: prod_eq_iff sample_added_sys_def) code_simp
  have w2: "addToList_write ?P ?t2 10 sample_added_sys ?u ?c CT_movie sample_content
              = (Inl MongoDuplicateKey, sample_added_sys)"
    by (simp add: prod_eq_iff) code_simp
  have a: "?step (sample_sys, ?cs0) (sample_sys, ?cs1)"
    using concurrentAdd.check_step[of 0 ?cs0 ?P ?u ?c CT_movie sample_sys]
    by (simp add: sample_call_def chk1)
  have b: "?step (sample_sys, ?cs1) (sample_sys, ?cs2)"
    using concurrentAdd.check_step[of 1 ?cs1 ?P ?u ?c CT_movie sample_sys]
    by (simp add: sample_call_def chk2)
  have c: "?step (sample_sys, ?cs2) (sample_added_sys, ?cs3)"
    using concurrentAdd.write_step[of 0 ?cs2 sample_content ?P sample_sys ?u ?c CT_movie
        "Inr ?item" sample_added_sys] w1
    by (simp add: sample_call_def)
  have d: "?step (sample_added_sys, ?cs3) (sample_added_sys, ?cs4)"
    using concurrentAdd.write_step[of 1 ?cs3 sample_content ?P sample_added_sys ?u ?c CT_movie
        "Inl MongoDuplicateKey" sample_added_sys] w2
    by (simp add: sample_call_def)
  from a b c d have run: "rtranclp ?step (sample_sys, ?cs0) (sample_added_sys, ?cs4)"
    by (meson rtranclp.rtrancl_into_rtrancl rtranclp.rtrancl_refl)
  have h2: "?cs0 \<noteq> []" by simp
  have h3: "list_all (\<lambda>c. phase c = Started) ?cs0" by (simp add: sample_call_def)
  have h4: "filter (hasPair ?u ?c) (myList sample_sys) = []" by code_simp
  have f1: "fetchContentData ?P ?t1 sample_sys ?c CT_movie = Inr sample_content" by code_simp
  have f2: "fetchContentData ?P ?t2 sample_sys ?c CT_movie = Inr sample_content" by code_simp
  have h5: "list_all (\<lambda>c. \<exists>cd. fetchContentData ?P (lookupClock c) sample_sys ?c CT_movie = Inr cd) ?cs0"
    using f1 f2 by (simp add: sample_call_def)
  have ids: "doc_id ` set (myList sample_sys) = {1, 2, 4, 3}"
    by (simp add: sample_sys_def sample_docs_def sample_doc_def)
  have h6: "list_all (\<lambda>c. freshId c \<notin> doc_id ` set (myList sample_sys)) ?cs0"
    by (simp add: ids sample_call_def)
  have h7: "list_all finished ?cs4" by (simp add: finished_def sample_call_def)
  from concurrent_duplicate_adds[OF run h2 h3 h4 h5 h6 h7] run show ?thesis by simp
qed

section \<open>The cursor walk, on the database and through the cache\<close>

lemma encode_inj:
  assumes "libs_roundtrip p a" "libs_roundtrip p b" "id_cast_roundtrip p a" "id_cast_roundtrip p b"
    and "encodeCursor p a = encodeCursor p b"
  shows "doc_id a = doc_id b"
proof -
  from decode_encode[OF assms(1)] decode_encode[OF assms(2)] assms(5)
  have "ObjectId_toString p (doc_id a) = ObjectId_toString p (doc_id b)" by simp
  with assms(3,4) show ?thesis by (simp add: id_cast_roundtrip_def)
qed

lemma walkKey_inj:
  assumes ids: "distinct (map doc_id S)"
    and libs: "\<forall>d\<in>set S. libs_roundtrip p d \<and> id_cast_roundtrip p d"
    and nf: "\<forall>d\<in>set S. encodeCursor p d \<noteq> ''first''"
    and j: "j \<le> length S" and k: "k \<le> length S"
    and eq: "walkKey p u lmt S j = walkKey p u lmt S k"
  shows "j = k"
proof -
  have cpk: "cursorPart (if truthy_str c then c else None) = cursorPart c" for c
    by (cases c) (auto simp: cursorPart_def)
  from eq have "(''mylist:'' @ u @ '':cursor:'' @ cursorPart (walkCursor p S j)) @ '':limit:'' @ show_nat lmt
              = (''mylist:'' @ u @ '':cursor:'' @ cursorPart (walkCursor p S k)) @ '':limit:'' @ show_nat lmt"
    by (simp add: walkKey_def getCacheKey_def getCursorCacheKey_def cpk)
  from split_limit[OF this] have cp: "cursorPart (walkCursor p S j) = cursorPart (walkCursor p S k)"
    by simp
  have part: "cursorPart (walkCursor p S i) = encodeCursor p (S ! (i - 1))
              \<and> S ! (i - 1) \<in> set S" if "0 < i" "i \<le> length S" for i
  proof -
    from that have m: "S ! (i - 1) \<in> set S" by simp
    with libs have "encodeCursor p (S ! (i - 1)) \<noteq> []" using encode_nonempty by blast
    with that m show ?thesis by (simp add: walkCursor_def cursorPart_def)
  qed
  have first: "cursorPart (walkCursor p S 0) = ''first''"
    by (simp add: walkCursor_def cursorPart_def)
  show ?thesis
  proof (cases "j = 0"; cases "k = 0")
    assume "j = 0" "k = 0"
    then show ?thesis by simp
  next
    assume "j = 0" "k \<noteq> 0"
    with cp first part[of k] k nf show ?thesis by (metis gr0I)
  next
    assume "j \<noteq> 0" "k = 0"
    with cp first part[of j] j nf show ?thesis by (metis gr0I)
  next
    assume jk: "j \<noteq> 0" "k \<noteq> 0"
    with part[of j] part[of k] j k cp
    have e: "encodeCursor p (S ! (j - 1)) = encodeCursor p (S ! (k - 1))"
      and mj: "S ! (j - 1) \<in> set S" and mk: "S ! (k - 1) \<in> set S" by simp_all
    from libs mj mk encode_inj[OF _ _ _ _ e]
    have "doc_id (S ! (j - 1)) = doc_id (S ! (k - 1))" by blast
    moreover from jk j k have "j - 1 < length S" "k - 1 < length S" by simp_all
    ultimately have "j - 1 = k - 1"
      using ids by (metis distinct_conv_nth length_map nth_map)
    with jk show ?thesis by simp
  qed
qed

lemma map_of_absent: "k \<notin> set (map fst xs) \<Longrightarrow> map_of xs k = None"
  by (simp add: map_of_eq_None_iff)

lemma walkPagesCurrent_iff:
  "walkPagesCurrent p s u lmt
     = (\<forall>k. (k = 0 \<or> k < length (userEntries (myList s) u)) \<and> k mod lmt = 0 \<longrightarrow>
          (\<forall>cached.
             map_of (kv (redis s)) (walkKey p u lmt (userEntries (myList s) u) k) = Some cached
             \<longrightarrow> getListWithCursorPagination p (myList s) u
                   (walkCursor p (userEntries (myList s) u) k) lmt = Inr cached))"
proof -
  let ?S = "userEntries (myList s) u"
  let ?ok = "\<lambda>k. \<forall>cached. map_of (kv (redis s)) (walkKey p u lmt ?S k) = Some cached
                 \<longrightarrow> getListWithCursorPagination p (myList s) u (walkCursor p ?S k) lmt
                       = Inr cached"
  let ?starts = "filter (\<lambda>k. k mod lmt = 0) [0 ..< max 1 (length ?S)]"
  have a: "walkPagesCurrent p s u lmt = (\<forall>k\<in>set ?starts. ?ok k)"
    unfolding walkPagesCurrent_def Let_def list_all_iff
    by (rule ball_cong[OF refl]) (simp split: option.splits)
  have b: "(k \<in> set ?starts) = ((k = 0 \<or> k < length ?S) \<and> k mod lmt = 0)" for k
    by auto
  show ?thesis unfolding a Ball_def b by simp
qed

lemma CacheService_get_cases:
  assumes "CacheService_get r key = (x, r1)"
  shows "kv r1 = kv r \<and> (x = None \<or> x = map_of (kv r) key)"
  using assms
  by (auto simp: CacheService_get_def redis_get_def next_command_def
      split: prod.splits option.splits list.splits bool.splits if_splits)

lemma CacheService_set_cases:
  "kv (CacheService_set r key data) = kv r
   \<or> (\<forall>k. map_of (kv (CacheService_set r key data)) k
            = (if k = key then Some data else map_of (kv r) k))"
proof -
  have "map_of (filter (\<lambda>e. fst e \<noteq> key) xs) k = (if k = key then None else map_of xs k)"
    for xs :: "(string \<times> ListResult) list" and k
    using map_of_filter_key[where Q = "\<lambda>k. k \<noteq> key" and xs = xs and k = k] by simp
  then show ?thesis
    by (auto simp: CacheService_set_def redis_setex_def next_command_def
        split: prod.splits option.splits list.splits bool.splits)
qed

lemma getList_walk_step:
  assumes cur: "walkPagesCurrent p s u lmt"
    and lmt: "1 \<le> lmt"
    and k: "k = 0 \<or> k < length (userEntries (myList s) u)"
    and km: "k mod lmt = 0"
    and pgk: "getListWithCursorPagination p (myList s) u
                 (walkCursor p (userEntries (myList s) u) k) lmt = Inr pg"
    and inj: "\<forall>j\<le>length (userEntries (myList s) u).
                walkKey p u lmt (userEntries (myList s) u) j
                  = walkKey p u lmt (userEntries (myList s) u) k \<longrightarrow> j = k"
  shows "\<exists>hit s'. getList p s u PT_cursor
                     \<lparr> page_param = None, limit_param = Some lmt,
                       cursor_param = walkCursor p (userEntries (myList s) u) k \<rparr>
                   = (Inr (withCacheHit hit pg), s')
                 \<and> myList s' = myList s \<and> walkPagesCurrent p s' u lmt"
proof -
  let ?S = "userEntries (myList s) u"
  let ?params = "\<lparr> page_param = None, limit_param = Some lmt,
                   cursor_param = walkCursor p ?S k \<rparr>"
  let ?key = "walkKey p u lmt ?S k"
  have eff0: "orDefault (Some lmt) 10 = lmt" using lmt by (simp add: orDefault_def)
  have keyeq: "getCacheKey u PT_cursor (page_param ?params) (cursor_param ?params)
                 (orDefault (limit_param ?params) 10) = ?key"
    by (simp add: eff0 walkKey_def)
  have db: "fetchFromDatabase p (myList s) u PT_cursor ?params (orDefault (limit_param ?params) 10)
              = Inr pg"
    using pgk by (simp add: fetchFromDatabase_def eff0)
  obtain x r1 where g: "CacheService_get (redis s) ?key = (x, r1)" by force
  from CacheService_get_cases[OF g]
  have kv1: "kv r1 = kv (redis s)" and x: "x = None \<or> x = map_of (kv (redis s)) ?key" by simp_all
  note current = cur[unfolded walkPagesCurrent_iff, rule_format]
  have cur': "getListWithCursorPagination p (myList s) u (walkCursor p ?S j) lmt = Inr cached"
    if a1: "j = 0 \<or> j < length ?S" and a2: "j mod lmt = 0"
      and a3: "map_of (kv (redis s)) (walkKey p u lmt ?S j) = Some cached" for j cached
  proof (rule current)
    from a1 a2 show "(j = 0 \<or> j < length ?S) \<and> j mod lmt = 0" by (rule conjI)
    from a3 show "map_of (kv (redis s)) (walkKey p u lmt ?S j) = Some cached" .
  qed
  show ?thesis
  proof (cases x)
    case None
    let ?s' = "s \<lparr> redis := CacheService_set r1 ?key pg \<rparr>"
    have res: "getList p s u PT_cursor ?params = (Inr (withCacheHit False pg), ?s')"
      unfolding getList_def Let_def keyeq g None db by simp
    have "walkPagesCurrent p ?s' u lmt"
      unfolding walkPagesCurrent_iff
    proof (intro allI impI)
      fix j cached'
      assume j: "(j = 0 \<or> j < length (userEntries (myList ?s') u)) \<and> j mod lmt = 0"
        and m: "map_of (kv (redis ?s')) (walkKey p u lmt (userEntries (myList ?s') u) j) = Some cached'"
      from j have j0: "j = 0 \<or> j < length ?S" and jm: "j mod lmt = 0" by simp_all
      from j0 have j': "j \<le> length ?S" by auto
      from m have m': "map_of (kv (CacheService_set r1 ?key pg)) (walkKey p u lmt ?S j) = Some cached'"
        by simp
      from CacheService_set_cases[of r1 ?key pg]
      have "getListWithCursorPagination p (myList s) u (walkCursor p ?S j) lmt = Inr cached'"
      proof
        assume "kv (CacheService_set r1 ?key pg) = kv r1"
        with m' kv1 have "map_of (kv (redis s)) (walkKey p u lmt ?S j) = Some cached'" by simp
        from cur'[OF j0 jm this] show ?thesis .
      next
        assume a: "\<forall>k'. map_of (kv (CacheService_set r1 ?key pg)) k'
                       = (if k' = ?key then Some pg else map_of (kv r1) k')"
        show ?thesis
        proof (cases "walkKey p u lmt ?S j = ?key")
          case True
          with inj j' have "j = k" by blast
          moreover from a m' True have "cached' = pg" by simp
          ultimately show ?thesis using pgk by simp
        next
          case False
          with a m' have "map_of (kv r1) (walkKey p u lmt ?S j) = Some cached'" by simp
          with kv1 have "map_of (kv (redis s)) (walkKey p u lmt ?S j) = Some cached'" by simp
          from cur'[OF j0 jm this] show ?thesis .
        qed
      qed
      then show "getListWithCursorPagination p (myList ?s') u
                   (walkCursor p (userEntries (myList ?s') u) j) lmt = Inr cached'" by simp
    qed
    with res show ?thesis by (intro exI[of _ False] exI[of _ ?s']) simp
  next
    case (Some data)
    let ?s' = "s \<lparr> redis := r1 \<rparr>"
    from Some x have "map_of (kv (redis s)) ?key = Some data" by simp
    from cur'[OF k km this] pgk have d: "data = pg" by simp
    have res: "getList p s u PT_cursor ?params = (Inr (withCacheHit True pg), ?s')"
      unfolding getList_def Let_def keyeq g Some d by simp
    have "walkPagesCurrent p ?s' u lmt"
      using cur unfolding walkPagesCurrent_iff by (simp add: kv1)
    with res show ?thesis by (intro exI[of _ True] exI[of _ ?s']) simp
  qed
qed

lemma listWalk_from:
  assumes lmt: "1 \<le> lmt"
    and ids: "distinct (map doc_id docs)"
    and libs: "\<forall>d\<in>set (userEntries docs u). libs_roundtrip p d \<and> id_cast_roundtrip p d"
    and nf: "\<forall>d\<in>set (userEntries docs u). encodeCursor p d \<noteq> ''first''"
  shows "myList s = docs \<Longrightarrow> k = 0 \<or> k < length (userEntries docs u)
     \<Longrightarrow> k mod lmt = 0
     \<Longrightarrow> length (userEntries docs u) - k < fuel
     \<Longrightarrow> walkPagesCurrent p s u lmt
     \<Longrightarrow> \<exists>s'. listWalk p s u lmt fuel (walkCursor p (userEntries docs u) k)
                 = (Some (Inr (map (mapToListItemData p) (drop k (userEntries docs u)))), s')
               \<and> myList s' = docs \<and> walkPagesCurrent p s' u lmt"
proof (induction fuel arbitrary: k s)
  case 0
  then show ?case by simp
next
  case (Suc fuel)
  let ?S = "userEntries docs u"
  let ?params = "\<lparr> page_param = None, limit_param = Some lmt,
                   cursor_param = walkCursor p ?S k \<rparr>"
  let ?pg = "\<lparr> items = map (mapToListItemData p) (take lmt (drop k ?S)),
              pagination = CursorPagination lmt
                (if k + lmt < length ?S then walkCursor p ?S (k + lmt) else None)
                (walkCursor p ?S k) (k + lmt < length ?S) (k \<noteq> 0) \<rparr>"
  have dS: "distinct (map doc_id ?S)"
  proof -
    have "distinct (map doc_id (filter (\<lambda>d. user_id d = u) docs))"
      using ids by (simp add: distinct_map_filter)
    moreover have "mset ?S = mset (filter (\<lambda>d. user_id d = u) docs)"
      by (simp add: userEntries_def sort_added_at_id_desc_def)
    ultimately show ?thesis by (metis mset_eq_imp_distinct_iff mset_map)
  qed
  from Suc.prems(2) have kle: "k \<le> length ?S" by auto
  have inj: "\<forall>j\<le>length ?S. walkKey p u lmt ?S j = walkKey p u lmt ?S k \<longrightarrow> j = k"
    using walkKey_inj[OF dS libs nf _ kle] by blast
  note pg = page_at[OF lmt ids libs kle]
  from getList_walk_step[OF Suc.prems(5) lmt, of k ?pg] Suc.prems(1,2,3) pg inj
  obtain hit s' where g: "getList p s u PT_cursor ?params = (Inr (withCacheHit hit ?pg), s')"
    and ml: "myList s' = docs" and cur': "walkPagesCurrent p s' u lmt"
    by auto
  show ?case
  proof (cases "k + lmt < length ?S")
    case True
    then have k': "k + lmt = 0 \<or> k + lmt < length ?S" by simp
    from Suc.prems(3) have km': "(k + lmt) mod lmt = 0" by simp
    have fuel': "length ?S - (k + lmt) < fuel" using Suc.prems(4) lmt True by linarith
    have split: "take lmt (drop k ?S) @ drop (k + lmt) ?S = drop k ?S"
      by (metis add.commute append_take_drop_id drop_drop)
    from Suc.IH[OF ml k' km' fuel' cur'] obtain s'' where
      w: "listWalk p s' u lmt fuel (walkCursor p ?S (k + lmt))
         = (Some (Inr (map (mapToListItemData p) (drop (k + lmt) ?S))), s'')"
      and ml'': "myList s'' = docs" and cur'': "walkPagesCurrent p s'' u lmt" by blast
    have "listWalk p s u lmt (Suc fuel) (walkCursor p ?S k)
            = (Some (Inr (map (mapToListItemData p) (drop k ?S))), s'')"
      using True g w by (simp add: withCacheHit_def flip: map_append) (simp add: split)
    with ml'' cur'' show ?thesis by blast
  next
    case False
    then have "take lmt (drop k ?S) = drop k ?S" by simp
    with False g have "listWalk p s u lmt (Suc fuel) (walkCursor p ?S k)
            = (Some (Inr (map (mapToListItemData p) (drop k ?S))), s')"
      by (simp add: withCacheHit_def)
    with ml cur' show ?thesis by blast
  qed
qed

lemma cold_cache_current:
  assumes "\<forall>e\<in>set (kv (redis s)). \<not> prefix (userNamespace u) (fst e)"
  shows "walkPagesCurrent p s u lmt"
proof -
  have "map_of (kv (redis s)) (getCacheKey u PT_cursor None c lmt) = None" for c
  proof (rule map_of_absent, rule notI)
    assume "getCacheKey u PT_cursor None c lmt \<in> set (map fst (kv (redis s)))"
    then obtain e where "e \<in> set (kv (redis s))" "fst e = getCacheKey u PT_cursor None c lmt"
      by auto
    with assms own_key_prefix[of u PT_cursor None c lmt] show False by auto
  qed
  then show ?thesis by (simp add: walkPagesCurrent_iff walkKey_def)
qed

text \<open>The walk through \<open>getList\<close>, from a state whose cached pages of the walk are current.\<close>

lemma cursor_walk_through_cache:
  assumes "1 \<le> lmt"
    and "distinct (map doc_id (myList s))"
    and "\<forall>d\<in>set (myList s). user_id d = u \<longrightarrow>
           libs_roundtrip p d \<and> id_cast_roundtrip p d \<and> encodeCursor p d \<noteq> ''first''"
    and "length (myList s) < fuel"
    and "walkPagesCurrent p s u lmt"
  shows "fst (listWalk p s u lmt fuel None)
           = Some (Inr (map (mapToListItemData p) (userEntries (myList s) u)))
         \<and> myList (snd (listWalk p s u lmt fuel None)) = myList s
         \<and> walkPagesCurrent p (snd (listWalk p s u lmt fuel None)) u lmt"
proof -
  let ?S = "userEntries (myList s) u"
  have set_S: "set ?S = {d \<in> set (myList s). user_id d = u}"
    by (auto simp: userEntries_def sort_added_at_id_desc_def)
  have libs: "\<forall>d\<in>set ?S. libs_roundtrip p d \<and> id_cast_roundtrip p d"
    and nf: "\<forall>d\<in>set ?S. encodeCursor p d \<noteq> ''first''"
    using assms(3) set_S by auto
  have len: "length ?S \<le> length (myList s)"
    by (simp add: userEntries_def sort_added_at_id_desc_def)
  from listWalk_from[OF assms(1,2) libs nf refl, of 0 fuel] len assms(4,5)
  show ?thesis by (auto simp: walkCursor_def)
qed

text \<open>
  C1. For every fixed limit of at least 1, the forward cursor walk through \<open>getList\<close> from
  no cursor, feeding each page's \<open>nextCursor\<close> into the next call until \<open>hasNextPage\<close> is
  false, finishes (within one call more than there are documents) and returns every entry
  of the user exactly once, in canonical order (\<open>added_at\<close> descending, \<open>_id\<close> descending),
  also when entries share \<open>added_at\<close>, provided the pages of the walk that the cache holds
  are current; they are when the cache holds no key of the user. The walk leaves the
  collection as it was and the cached pages current. The walk on the database read returns
  the same list whatever the cache holds. The store's ids are unique, as they are in every
  reachable state (lemma \<open>reachable_unique\<close>), and the libraries round-trip the cursors of
  the user's entries, none of which is the word \<open>first\<close> (a base64 text has a length
  divisible by 4).
\<close>

theorem cursor_walk_complete:
  assumes "1 \<le> lmt"
    and "distinct (map doc_id (myList s))"
    and "\<forall>d\<in>set (myList s). user_id d = u \<longrightarrow> libs_roundtrip p d \<and> id_cast_roundtrip p d"
    and "length (myList s) < fuel"
  shows "(walkPagesCurrent p s u lmt
            \<and> (\<forall>d\<in>set (myList s). user_id d = u \<longrightarrow> encodeCursor p d \<noteq> ''first'')
           \<longrightarrow> fst (listWalk p s u lmt fuel None)
                 = Some (Inr (map (mapToListItemData p) (userEntries (myList s) u)))
               \<and> myList (snd (listWalk p s u lmt fuel None)) = myList s
               \<and> walkPagesCurrent p (snd (listWalk p s u lmt fuel None)) u lmt)
         \<and> ((\<forall>e\<in>set (kv (redis s)). \<not> prefix (userNamespace u) (fst e))
               \<longrightarrow> walkPagesCurrent p s u lmt)
         \<and> cursorWalk p (myList s) u lmt fuel None
             = Some (Inr (map (mapToListItemData p) (userEntries (myList s) u)))
         \<and> mset (userEntries (myList s) u) = mset (filter (\<lambda>d. user_id d = u) (myList s))
         \<and> distinct (userEntries (myList s) u)
         \<and> sorted_wrt canonical_before (userEntries (myList s) u)
         \<and> distinct (map item_id (map (mapToListItemData p) (userEntries (myList s) u)))"
proof -
  let ?docs = "myList s"
  let ?S = "userEntries ?docs u"
  have set_S: "set ?S = {d \<in> set ?docs. user_id d = u}"
    by (auto simp: userEntries_def sort_added_at_id_desc_def)
  have libs: "\<forall>d\<in>set ?S. libs_roundtrip p d \<and> id_cast_roundtrip p d"
    using assms(3) set_S by auto
  have len: "length ?S \<le> length ?docs"
    by (simp add: userEntries_def sort_added_at_id_desc_def)
  have walk: "cursorWalk p ?docs u lmt fuel None = Some (Inr (map (mapToListItemData p) ?S))"
    using walk_from[OF assms(1,2) libs, of 0 fuel] len assms(4) by (simp add: walkCursor_def)
  have cached: "fst (listWalk p s u lmt fuel None) = Some (Inr (map (mapToListItemData p) ?S))
               \<and> myList (snd (listWalk p s u lmt fuel None)) = myList s
               \<and> walkPagesCurrent p (snd (listWalk p s u lmt fuel None)) u lmt"
    if "walkPagesCurrent p s u lmt"
      and "\<forall>d\<in>set ?docs. user_id d = u \<longrightarrow> encodeCursor p d \<noteq> ''first''"
  proof -
    from assms(3) that(2) have "\<forall>d\<in>set ?docs. user_id d = u \<longrightarrow>
           libs_roundtrip p d \<and> id_cast_roundtrip p d \<and> encodeCursor p d \<noteq> ''first''" by blast
    from cursor_walk_through_cache[OF assms(1,2) this assms(4) that(1)] show ?thesis .
  qed
  have cold: "walkPagesCurrent p s u lmt"
    if "\<forall>e\<in>set (kv (redis s)). \<not> prefix (userNamespace u) (fst e)"
    using cold_cache_current[OF that] .
  have ms: "mset ?S = mset (filter (\<lambda>d. user_id d = u) ?docs)"
    by (simp add: userEntries_def sort_added_at_id_desc_def)
  have dids: "distinct (map doc_id ?S)"
  proof -
    have "distinct (map doc_id (filter (\<lambda>d. user_id d = u) ?docs))"
      using assms(2) by (simp add: distinct_map_filter)
    then show ?thesis
      by (metis ms mset_eq_imp_distinct_iff mset_map)
  qed
  then have dist: "distinct ?S" by (simp add: distinct_map)
  have strict: "sorted_wrt (<) (map canonical_key ?S)"
    using userEntries_strict[OF assms(2)] .
  have srt: "sorted_wrt canonical_before ?S"
    using strict unfolding sorted_wrt_map
    by (rule sorted_wrt_mono_rel[rotated]) (auto simp: canonical_before_def canonical_key_def)
  have inj: "inj_on (ObjectId_toString p \<circ> doc_id) (set ?S)"
  proof (rule inj_onI)
    fix a b assume a: "a \<in> set ?S" and b: "b \<in> set ?S"
      and eq: "(ObjectId_toString p \<circ> doc_id) a = (ObjectId_toString p \<circ> doc_id) b"
    from a b libs have "id_cast_roundtrip p a" "id_cast_roundtrip p b" by auto
    with eq have "doc_id a = doc_id b" by (simp add: id_cast_roundtrip_def)
    with dids a b show "a = b" by (simp add: distinct_map inj_on_def)
  qed
  have "map item_id (map (mapToListItemData p) ?S) = map (ObjectId_toString p \<circ> doc_id) ?S"
    by (simp add: mapToListItemData_def)
  moreover have "distinct (map (ObjectId_toString p \<circ> doc_id) ?S)"
    using dist inj by (simp only: distinct_map simp_thms)
  ultimately have "distinct (map item_id (map (mapToListItemData p) ?S))"
    by (simp only:)
  with walk cached cold ms dist srt show ?thesis by blast
qed

text \<open>
  After alice's walk her two pages are in the cache. She adds movie 8 while the \<open>SCAN\<close> of
  the sweep fails: the add succeeds and the pages stay. The next walk is answered from the
  cache and returns the entries 3, 2, 1, while the collection holds 9, 3, 2, 1: the new
  entry is omitted. When she removes entry 3 instead, again with the \<open>SCAN\<close> failing, the
  next walk returns 3, 2, 1 while the collection holds 2 and 1. In both states ids are
  unique and the libraries round-trip, but the cached pages are not current.
\<close>

theorem cursor_walk_stale_cache_counterexample:
  "map_sum (\<lambda>e. e) item_id
     (fst (addToList sample_platform 1704283200000 1704283200000 9
             (sample_walked_sys \<lparr> redis := (redis sample_walked_sys) \<lparr> outages := [True] \<rparr> \<rparr>)
             ''alice'' ''000000000000000000000008'' CT_movie))
     = Inr ''000000000000000000000009''
   \<and> userEntries (myList sample_stale_added_sys) ''alice''
       = [sample_doc 9 ''alice'' ''000000000000000000000008'' 1704283200000,
          sample_doc 3 ''alice'' ''000000000000000000000007'' 1704196800000,
          sample_doc 2 ''alice'' ''000000000000000000000006'' 1704110400000,
          sample_doc 1 ''alice'' ''000000000000000000000005'' 1704110400000]
   \<and> fst (listWalk sample_platform sample_stale_added_sys ''alice'' 2 6 None)
       = Some (Inr (map (mapToListItemData sample_platform)
            [sample_doc 3 ''alice'' ''000000000000000000000007'' 1704196800000,
             sample_doc 2 ''alice'' ''000000000000000000000006'' 1704110400000,
             sample_doc 1 ''alice'' ''000000000000000000000005'' 1704110400000]))
   \<and> distinct (map doc_id (myList sample_stale_added_sys))
   \<and> list_all (\<lambda>d. libs_roundtrip sample_platform d \<and> id_cast_roundtrip sample_platform d
                   \<and> encodeCursor sample_platform d \<noteq> ''first'')
         (myList sample_stale_added_sys)
   \<and> walkPagesCurrent sample_platform sample_stale_added_sys ''alice'' 2 = False
   \<and> fst (removeFromList
          (sample_walked_sys \<lparr> redis := (redis sample_walked_sys) \<lparr> outages := [True] \<rparr> \<rparr>)
          ''alice'' ''000000000000000000000007'') = Inr ()
   \<and> userEntries (myList sample_stale_sys) ''alice''
       = [sample_doc 2 ''alice'' ''000000000000000000000006'' 1704110400000,
          sample_doc 1 ''alice'' ''000000000000000000000005'' 1704110400000]
   \<and> fst (listWalk sample_platform sample_stale_sys ''alice'' 2 5 None)
       = Some (Inr (map (mapToListItemData sample_platform)
            [sample_doc 3 ''alice'' ''000000000000000000000007'' 1704196800000,
             sample_doc 2 ''alice'' ''000000000000000000000006'' 1704110400000,
             sample_doc 1 ''alice'' ''000000000000000000000005'' 1704110400000]))
   \<and> distinct (map doc_id (myList sample_stale_sys))
   \<and> list_all (\<lambda>d. libs_roundtrip sample_platform d \<and> id_cast_roundtrip sample_platform d
                   \<and> encodeCursor sample_platform d \<noteq> ''first'')
         (myList sample_stale_sys)
   \<and> walkPagesCurrent sample_platform sample_stale_sys ''alice'' 2 = False"
  by code_simp

theorem cursor_walk_complete_witness:
  "(1::nat) \<le> 2 \<and> distinct (map doc_id (myList sample_walked_sys))
   \<and> list_all (\<lambda>d. libs_roundtrip sample_platform d \<and> id_cast_roundtrip sample_platform d
                   \<and> encodeCursor sample_platform d \<noteq> ''first'')
         (myList sample_walked_sys)
   \<and> length (myList sample_walked_sys) < 5
   \<and> map fst (kv (redis sample_walked_sys))
       = [''mylist:alice:cursor:eyJhZGRlZF9hdCI6IjIwMjQtMDEtMDFUMTI6MDA6MDAuMDAwWiIsImlkIjoiMDAwMDAwMDAwMDAwMDAwMDAwMDAwMDAyIn0=:limit:2'',
          ''mylist:alice:cursor:first:limit:2'']
   \<and> walkPagesCurrent sample_platform sample_walked_sys ''alice'' 2
   \<and> fst (listWalk sample_platform sample_walked_sys ''alice'' 2 5 None)
       = Some (Inr (map (mapToListItemData sample_platform)
            [sample_doc 3 ''alice'' ''000000000000000000000007'' 1704196800000,
             sample_doc 2 ''alice'' ''000000000000000000000006'' 1704110400000,
             sample_doc 1 ''alice'' ''000000000000000000000005'' 1704110400000]))
   \<and> cursorWalk sample_platform (myList sample_walked_sys) ''alice'' 2 5 None
       = Some (Inr (map (mapToListItemData sample_platform)
            [sample_doc 3 ''alice'' ''000000000000000000000007'' 1704196800000,
             sample_doc 2 ''alice'' ''000000000000000000000006'' 1704110400000,
             sample_doc 1 ''alice'' ''000000000000000000000005'' 1704110400000]))"
proof -
  have ml: "myList sample_walked_sys = sample_docs" by code_simp
  have h1: "(1::nat) \<le> 2" by simp
  have h2: "distinct (map doc_id (myList sample_walked_sys))"
    by (simp add: ml sample_docs_def sample_doc_def)
  have nf: "list_all (\<lambda>d. encodeCursor sample_platform d \<noteq> ''first'') sample_docs" by code_simp
  have all: "list_all (\<lambda>d. libs_roundtrip sample_platform d \<and> id_cast_roundtrip sample_platform d
                   \<and> encodeCursor sample_platform d \<noteq> ''first'') (myList sample_walked_sys)"
    using sample_roundtrips nf by (simp add: ml list_all_iff)
  then have h3: "\<forall>d\<in>set (myList sample_walked_sys). user_id d = ''alice''
         \<longrightarrow> libs_roundtrip sample_platform d \<and> id_cast_roundtrip sample_platform d"
    and h6: "\<forall>d\<in>set (myList sample_walked_sys). user_id d = ''alice''
         \<longrightarrow> encodeCursor sample_platform d \<noteq> ''first''"
    by (simp_all add: list_all_iff)
  have h4: "length (myList sample_walked_sys) < 5" by (simp add: ml sample_docs_def)
  have keys: "map fst (kv (redis sample_walked_sys))
       = [''mylist:alice:cursor:eyJhZGRlZF9hdCI6IjIwMjQtMDEtMDFUMTI6MDA6MDAuMDAwWiIsImlkIjoiMDAwMDAwMDAwMDAwMDAwMDAwMDAwMDAyIn0=:limit:2'',
          ''mylist:alice:cursor:first:limit:2'']"
    by code_simp
  have h5: "walkPagesCurrent sample_platform sample_walked_sys ''alice'' 2" by code_simp
  have ue: "userEntries (myList sample_walked_sys) ''alice'' =
            [sample_doc 3 ''alice'' ''000000000000000000000007'' 1704196800000,
             sample_doc 2 ''alice'' ''000000000000000000000006'' 1704110400000,
             sample_doc 1 ''alice'' ''000000000000000000000005'' 1704110400000]"
    by (simp add: ml userEntries_def sort_added_at_id_desc_def sample_docs_def sample_doc_def
        canonical_key_def)
  from cursor_walk_complete[OF h1 h2 h3 h4] h5 h6 h1 h2 all h4 keys show ?thesis
    unfolding ue by simp
qed

section \<open>Reads after a mutation\<close>














end
